theory Spec2Isabelle
  imports Main "HOL-Library.Signed_Division"
begin

section \<open>The olive argument parser\<close>

text \<open>
  A shallow embedding of the parsing engine of olive: the command tree of
  \<^verbatim>\<open>olive.go\<close>, the argument kinds, and the state machine \<^verbatim>\<open>argParser\<close>.
  Go structs are records or datatypes with the fields of the source; where two
  structs have a field of the same name, the later one carries a one-letter prefix
  (\<open>aname\<close> for \<^verbatim>\<open>argumentBase.name\<close>, \<open>rflags\<close> for \<^verbatim>\<open>ArgParseResult.flags\<close>).
  A Go map is an association list read with \<open>map_of\<close> (the builders never insert a
  key twice); a map used as a set is a set.
\<close>

subsection \<open>The standard library functions the parser calls\<close>

text \<open>
  \<^verbatim>\<open>strings.HasPrefix\<close>, \<^verbatim>\<open>strings.Contains\<close> and \<^verbatim>\<open>strings.Split\<close> (both for a
  separator of one byte, the only use the parser makes of them), \<^verbatim>\<open>strings.Join\<close>
  and \<^verbatim>\<open>strings.TrimLeft\<close>. A Go string is a sequence of bytes, as \<open>string\<close> is.
\<close>

definition HasPrefix :: "string \<Rightarrow> string \<Rightarrow> bool" where
  "HasPrefix s p = (take (length p) s = p)"

definition Contains :: "string \<Rightarrow> char \<Rightarrow> bool" where
  "Contains s sep = (sep \<in> set s)"

fun Split :: "string \<Rightarrow> char \<Rightarrow> string list" where
  "Split [] sep = [[]]"
| "Split (c # s) sep =
     (if c = sep then [] # Split s sep
      else (case Split s sep of
              [] \<Rightarrow> [[c]]
            | p # ps \<Rightarrow> (c # p) # ps))"

fun Join :: "string list \<Rightarrow> string \<Rightarrow> string" where
  "Join [] sep = []"
| "Join [x] sep = x"
| "Join (x # y # ys) sep = x @ sep @ Join (y # ys) sep"

definition TrimLeft :: "string \<Rightarrow> string \<Rightarrow> string" where
  "TrimLeft s cutset = dropWhile (\<lambda>c. c \<in> set cutset) s"

text \<open>
  \<^verbatim>\<open>strconv.ParseInt\<close>, \<^verbatim>\<open>strconv.ParseFloat\<close> and \<^verbatim>\<open>bits.UintSize\<close> belong to Go, not
  to olive: they are parameters of the model. \<open>float64\<close> is left abstract.
\<close>

typedecl float64

datatype numError = ErrSyntax | ErrRange

record golib =
  ParseInt :: "string \<Rightarrow> nat \<Rightarrow> nat \<Rightarrow> numError + int"
  ParseFloat :: "string \<Rightarrow> nat \<Rightarrow> numError + float64"
  UintSize :: nat

subsection \<open>Flags, arguments, commands\<close>

text \<open>
  A value of type \<^verbatim>\<open>interface{}\<close>: \<open>NilV\<close> is the nil interface; an interface
  holding an \<^verbatim>\<open>int\<close>, a \<^verbatim>\<open>float64\<close> or a \<^verbatim>\<open>string\<close> is never nil, whatever the
  number or string is.
\<close>

datatype anyval = NilV | IntV int | FloatV float64 | StringV string

text \<open>
  A callback (\<^verbatim>\<open>func()\<close>) is opaque, and running it is recorded as an event. What
  the parser can observe of a callback is whether the call comes back: a function of
  the caller, named by a number, either returns or ends the process
  (\<^verbatim>\<open>os.Exit\<close>); the callback that \<^verbatim>\<open>newCommand\<close> and \<^verbatim>\<open>EnableHelp\<close> give the help
  flag of a command \<^verbatim>\<open>c\<close> is \<^verbatim>\<open>c.Help(); os.Exit(0)\<close>, which prints the help of the
  command (here given by its name) and ends the process.
  A validator (\<^verbatim>\<open>func(T) error\<close>) returns the message of its error, or \<open>None\<close> for
  nil; each call of a validator is an event too.
\<close>

datatype callback = Returning nat | Exiting nat | HelpAndExit string

fun exits :: "callback \<Rightarrow> bool" where
  "exits (Returning n) = False"
| "exits (Exiting n) = True"
| "exits (HelpAndExit c) = True"

datatype event = ActionRun callback | ValidatorRun string anyval

record Flag =
  name :: string
  shortName :: string
  desc :: string
  action :: "callback option"

record argumentBase =
  aname :: string
  ashortName :: string
  adesc :: string
  required :: bool
  defaultValue :: anyval

datatype Argument =
    IntArgument argumentBase "(int \<Rightarrow> string option) option"
  | FloatArgument argumentBase "(float64 \<Rightarrow> string option) option"
  | StringArgument argumentBase "(string \<Rightarrow> string option) option"
  | SelectorArgument argumentBase "string set" "(string \<Rightarrow> string option) option"

fun base :: "Argument \<Rightarrow> argumentBase" where
  "base (IntArgument ab v) = ab"
| "base (FloatArgument ab v) = ab"
| "base (StringArgument ab v) = ab"
| "base (SelectorArgument ab pv v) = ab"

definition ArgName :: "Argument \<Rightarrow> string" where
  "ArgName a = aname (base a)"

definition ShortName :: "Argument \<Rightarrow> string" where
  "ShortName a = ashortName (base a)"

definition Required :: "Argument \<Rightarrow> bool" where
  "Required a = required (base a)"

definition GetDefaultValue :: "Argument \<Rightarrow> anyval \<times> bool" where
  "GetDefaultValue a = (defaultValue (base a), defaultValue (base a) \<noteq> NilV)"

record PrimaryArgument =
  pname :: string
  pdesc :: string
  prequired :: bool

datatype Command = Command
  (Name: string)
  (Description: string)
  (RequiresSubcommand: bool)
  (subcommands: "(string \<times> Command) list")
  (flags: "(string \<times> Flag) list")
  (args: "(string \<times> Argument) list")
  (flagsByShortName: "(string \<times> Flag) list")
  (argsByShortName: "(string \<times> Argument) list")
  (primaryArg: "PrimaryArgument option")

subsection \<open>Errors and argument values\<close>

text \<open>
  The errors of the parser, one constructor for each message. The last constructor
  is not an error value of the library: \<open>ProcessExit\<close> stands for a callback that
  ended the process, after which no function of the parser returns. The model
  carries it outwards in the place of the error, with the state of the parser at
  that moment.
\<close>

datatype error =
    UnknownFlag string
  | UnknownArgument string
  | UnknownFlagByShortName string
  | UnknownArgumentByShortName string
  | MultiplePrimaryArguments string
  | UnknownSubcommand string
  | FlagSetMultipleTimes string
  | ArgumentSetMultipleTimes string
  | RequiresASubcommand string
  | NotAValidValue string string
  | NumError numError string
  | ValidatorError string
  | ProcessExit

text \<open>
  The tail every \<^verbatim>\<open>checkValue\<close> shares: if a validator is set, call it on the
  typed value; its error, if any, is the result.
\<close>

definition validate ::
  "string \<Rightarrow> ('a \<Rightarrow> string option) option \<Rightarrow> 'a \<Rightarrow> ('a \<Rightarrow> anyval) \<Rightarrow> event list \<times> (error + anyval)" where
  "validate nm validator v box =
     (case validator of
        None \<Rightarrow> ([], Inr (box v))
      | Some f \<Rightarrow>
          (case f v of
             Some msg \<Rightarrow> ([ValidatorRun nm (box v)], Inl (ValidatorError msg))
           | None \<Rightarrow> ([ValidatorRun nm (box v)], Inr (box v))))"

text \<open>
  \<^verbatim>\<open>int(raw)\<close> converts the \<^verbatim>\<open>int64\<close> that \<^verbatim>\<open>ParseInt\<close> returns to the platform's
  \<^verbatim>\<open>int\<close>, keeping its low \<^verbatim>\<open>UintSize\<close> bits.
\<close>

fun checkValue :: "golib \<Rightarrow> Argument \<Rightarrow> string \<Rightarrow> event list \<times> (error + anyval)" where
  "checkValue lib (IntArgument ab validator) val =
     (case ParseInt lib val 0 (UintSize lib) of
        Inl e \<Rightarrow> ([], Inl (NumError e val))
      | Inr raw \<Rightarrow> validate (aname ab) validator (signed_take_bit (UintSize lib - 1) raw) IntV)"
| "checkValue lib (FloatArgument ab validator) val =
     (case ParseFloat lib val 64 of
        Inl e \<Rightarrow> ([], Inl (NumError e val))
      | Inr v \<Rightarrow> validate (aname ab) validator v FloatV)"
| "checkValue lib (StringArgument ab validator) val =
     validate (aname ab) validator val StringV"
| "checkValue lib (SelectorArgument ab possibleValues validator) val =
     (if val \<notin> possibleValues then ([], Inl (NotAValidValue val (aname ab)))
      else validate (aname ab) validator val StringV)"

subsection \<open>The parse result and the parser state\<close>

text \<open>
  The parser holds pointers to \<^verbatim>\<open>ArgParseResult\<close> objects and links them to one
  another, so the objects live in a store: \<open>heap\<close> is the list of the objects
  allocated so far, an address is a position in it, and a pointer is an address or
  nil (\<open>None\<close>). \<open>events\<close> is the trace of the callbacks and validators run so far.
  Neither is a field of the Go struct.
\<close>

type_synonym addr = nat

record ArgParseResult =
  rflags :: "string set"
  Arguments :: "string \<rightharpoonup> anyval"
  subcommandName :: string
  subcommandRes :: "addr option"
  rprimaryArg :: string

definition newResult :: ArgParseResult where
  "newResult = \<lparr>rflags = {}, Arguments = Map.empty, subcommandName = [],
                 subcommandRes = None, rprimaryArg = []\<rparr>"

record argParser =
  initialCommand :: Command
  commandStack :: "Command list"
  result :: "addr option"
  semanticStack :: "addr list"
  allowSubcommands :: bool
  heap :: "ArgParseResult list"
  events :: "event list"

definition HasFlag :: "ArgParseResult \<Rightarrow> string \<Rightarrow> bool" where
  "HasFlag apr nm = (nm \<in> rflags apr)"

definition PrimaryArg :: "ArgParseResult \<Rightarrow> string \<times> bool" where
  "PrimaryArg apr = (rprimaryArg apr, rprimaryArg apr \<noteq> [])"

definition Subcommand :: "ArgParseResult \<Rightarrow> string \<times> addr option \<times> bool" where
  "Subcommand apr = (subcommandName apr, subcommandRes apr, subcommandRes apr \<noteq> None)"

subsection \<open>The parser\<close>

definition currCommand :: "argParser \<Rightarrow> Command" where
  "currCommand ap = commandStack ap ! (length (commandStack ap) - 1)"

definition currAddr :: "argParser \<Rightarrow> addr" where
  "currAddr ap = semanticStack ap ! (length (semanticStack ap) - 1)"

definition currResult :: "argParser \<Rightarrow> ArgParseResult" where
  "currResult ap = heap ap ! currAddr ap"

definition extractComponents :: "string \<Rightarrow> string \<times> string" where
  "extractComponents arg =
     (if Contains arg CHR ''='' then
        (let argComponents = Split arg CHR ''='' in
         (TrimLeft (hd argComponents) ''-'', Join (tl argComponents) ''=''))
      else (TrimLeft arg ''-'', []))"

definition setFlag :: "argParser \<Rightarrow> nat \<Rightarrow> Flag \<Rightarrow> error option \<times> argParser" where
  "setFlag ap ndx flag =
     (let a = semanticStack ap ! ndx; r = heap ap ! a in
      if name flag \<in> rflags r then (Some (FlagSetMultipleTimes (name flag)), ap)
      else
        (let ap1 = ap\<lparr>heap := (heap ap)[a := r\<lparr>rflags := insert (name flag) (rflags r)\<rparr>]\<rparr> in
         case action flag of
           None \<Rightarrow> (None, ap1)
         | Some f \<Rightarrow>
             (if exits f then Some ProcessExit else None,
              ap1\<lparr>events := events ap1 @ [ActionRun f]\<rparr>)))"

definition setArg :: "golib \<Rightarrow> argParser \<Rightarrow> nat \<Rightarrow> Argument \<Rightarrow> string \<Rightarrow> error option \<times> argParser" where
  "setArg lib ap ndx arg val =
     (let a = semanticStack ap ! ndx; r = heap ap ! a in
      if Arguments r (ArgName arg) \<noteq> None then (Some (ArgumentSetMultipleTimes (ArgName arg)), ap)
      else
        (case checkValue lib arg val of
           (evs, res) \<Rightarrow>
             (let ap1 = ap\<lparr>events := events ap @ evs\<rparr> in
              case res of
                Inr v \<Rightarrow>
                  (None, ap1\<lparr>heap := (heap ap1)[a := r\<lparr>Arguments := (Arguments r)(ArgName arg \<mapsto> v)\<rparr>]\<rparr>)
              | Inl err \<Rightarrow> (Some err, ap1))))"

text \<open>
  The four loops of \<^verbatim>\<open>consume\<close> differ only in the table they read and in the
  setter they call on a hit: \<open>searchStack tbl cs n nm\<close> runs
  \<^verbatim>\<open>for i := n - 1; i > -1; i--\<close> and returns the first \<open>i\<close> whose table has \<open>nm\<close>,
  with the entry.
\<close>

fun searchStack :: "(Command \<Rightarrow> (string \<times> 'a) list) \<Rightarrow> Command list \<Rightarrow> nat \<Rightarrow> string \<Rightarrow> (nat \<times> 'a) option" where
  "searchStack tbl cs 0 nm = None"
| "searchStack tbl cs (Suc i) nm =
     (case map_of (tbl (cs ! i)) nm of
        Some x \<Rightarrow> Some (i, x)
      | None \<Rightarrow> searchStack tbl cs i nm)"

definition consume :: "golib \<Rightarrow> argParser \<Rightarrow> string \<Rightarrow> error option \<times> argParser" where
  "consume lib ap0 arg =
     (if HasPrefix arg ''--'' then
        (let ap = ap0\<lparr>allowSubcommands := False\<rparr>;
             (argName, argVal) = extractComponents arg in
         if argVal = [] then
           (case searchStack flags (commandStack ap) (length (commandStack ap)) argName of
              Some (i, flag) \<Rightarrow> setFlag ap i flag
            | None \<Rightarrow> (Some (UnknownFlag argName), ap))
         else
           (case searchStack args (commandStack ap) (length (commandStack ap)) argName of
              Some (i, a) \<Rightarrow> setArg lib ap i a argVal
            | None \<Rightarrow> (Some (UnknownArgument argName), ap)))
      else if HasPrefix arg ''-'' then
        (let ap = ap0\<lparr>allowSubcommands := False\<rparr>;
             (argName, argVal) = extractComponents arg in
         if argVal = [] then
           (case searchStack flagsByShortName (commandStack ap) (length (commandStack ap)) argName of
              Some (i, flag) \<Rightarrow> setFlag ap i flag
            | None \<Rightarrow> (Some (UnknownFlagByShortName argName), ap))
         else
           (case searchStack argsByShortName (commandStack ap) (length (commandStack ap)) argName of
              Some (i, a) \<Rightarrow> setArg lib ap i a argVal
            | None \<Rightarrow> (Some (UnknownArgumentByShortName argName), ap)))
      else if primaryArg (currCommand ap0) \<noteq> None then
        (let ap = ap0\<lparr>allowSubcommands := False\<rparr> in
         if rprimaryArg (currResult ap) \<noteq> [] then
           (Some (MultiplePrimaryArguments (Name (currCommand ap))), ap)
         else
           (None, ap\<lparr>heap := (heap ap)[currAddr ap := (currResult ap)\<lparr>rprimaryArg := arg\<rparr>]\<rparr>))
      else if allowSubcommands ap0 then
        (case map_of (subcommands (currCommand ap0)) arg of
           Some subc \<Rightarrow>
             (let new = length (heap ap0);
                  h = heap ap0 @ [newResult];
                  top = currAddr ap0 in
              (None, ap0\<lparr>commandStack := commandStack ap0 @ [subc],
                         heap := h[top := (h ! top)\<lparr>subcommandRes := Some new,
                                                   subcommandName := Name subc\<rparr>],
                         semanticStack := semanticStack ap0 @ [new]\<rparr>))
         | None \<Rightarrow> (Some (UnknownSubcommand arg), ap0))
      else (Some (UnknownSubcommand arg), ap0))"

fun consumeAll :: "golib \<Rightarrow> argParser \<Rightarrow> string list \<Rightarrow> error option \<times> argParser" where
  "consumeAll lib ap [] = (None, ap)"
| "consumeAll lib ap (arg # rest) =
     (case consume lib ap arg of
        (Some err, ap') \<Rightarrow> (Some err, ap')
      | (None, ap') \<Rightarrow> consumeAll lib ap' rest)"

fun fillArgs :: "(string \<times> Argument) list \<Rightarrow> ArgParseResult \<Rightarrow> ArgParseResult" where
  "fillArgs [] r = r"
| "fillArgs ((k, arg) # rest) r =
     (case GetDefaultValue arg of
        (val, ok) \<Rightarrow>
          fillArgs rest
            (if ok \<and> Arguments r (ArgName arg) = None
             then r\<lparr>Arguments := (Arguments r)(ArgName arg \<mapsto> val)\<rparr>
             else r))"

fun fillDefaults :: "argParser \<Rightarrow> nat \<Rightarrow> argParser" where
  "fillDefaults ap 0 = ap"
| "fillDefaults ap (Suc i) =
     (let a = semanticStack ap ! i in
      fillDefaults (ap\<lparr>heap := (heap ap)[a := fillArgs (args (commandStack ap ! i)) (heap ap ! a)]\<rparr>) i)"

definition startParse :: "argParser \<Rightarrow> argParser" where
  "startParse ap =
     (let new = length (heap ap) in
      ap\<lparr>heap := heap ap @ [newResult], result := Some new,
         commandStack := [initialCommand ap], semanticStack := [new],
         allowSubcommands := True\<rparr>)"

definition parse :: "golib \<Rightarrow> argParser \<Rightarrow> string list \<Rightarrow> (error + addr option) \<times> argParser" where
  "parse lib ap0 as =
     (case consumeAll lib (startParse ap0) as of
        (Some err, ap) \<Rightarrow> (Inl err, ap)
      | (None, ap) \<Rightarrow>
          if subcommands (currCommand ap) \<noteq> [] \<and> RequiresSubcommand (currCommand ap)
          then (Inl (RequiresASubcommand (Name (currCommand ap))), ap)
          else (Inr (result ap), fillDefaults ap (length (commandStack ap))))"

text \<open>
  \<^verbatim>\<open>ParseArgs\<close> builds a parser that holds the command tree and nothing else,
  and slices \<^verbatim>\<open>args[1:]\<close>, which panics on an empty slice. A call of \<^verbatim>\<open>ParseArgs\<close>
  panics, or the process ends within it (in the state given), or it returns what
  \<^verbatim>\<open>parse\<close> returns.
\<close>

datatype 'a outcome = Panic | Exits argParser | Returns 'a

definition newParser :: "Command \<Rightarrow> argParser" where
  "newParser cli = \<lparr>initialCommand = cli, commandStack = [], result = None,
                     semanticStack = [], allowSubcommands = False, heap = [], events = []\<rparr>"

definition ParseArgs :: "golib \<Rightarrow> Command \<Rightarrow> string list \<Rightarrow> ((error + addr option) \<times> argParser) outcome" where
  "ParseArgs lib cli as =
     (case as of
        [] \<Rightarrow> Panic
      | a # rest \<Rightarrow>
          (let r = parse lib (newParser cli) rest in
           if fst r = Inl ProcessExit then Exits (snd r) else Returns r))"

text \<open>
  \<^verbatim>\<open>newCommand\<close>, which \<^verbatim>\<open>NewCLI\<close> and \<^verbatim>\<open>AddSubcommand\<close> call: a command with empty
  tables that requires a subcommand, and, unless help is disabled, the help flag.
  \<^verbatim>\<open>AddFlag\<close> meets no name in the empty tables and stores one flag object under
  both names; the callback is then set on this object.
\<close>

definition helpFlag :: "string \<Rightarrow> Flag" where
  "helpFlag c = \<lparr>name = ''help'', shortName = ''h'', desc = ''Get help'', action = Some (HelpAndExit c)\<rparr>"

definition newCommand :: "string \<Rightarrow> string \<Rightarrow> bool \<Rightarrow> Command" where
  "newCommand nm d helpEnabled =
     (if helpEnabled
      then Command nm d True [] [(''help'', helpFlag nm)] [] [(''h'', helpFlag nm)] [] None
      else Command nm d True [] [] [] [] [] None)"

definition NewCLI :: "string \<Rightarrow> string \<Rightarrow> bool \<Rightarrow> Command" where
  "NewCLI nm d helpEnabled = newCommand nm d helpEnabled"

section \<open>Notions used in the statements\<close>

text \<open>
  The shape every state of a parse has: the result stack holds the addresses
  \<open>0, 1, ...\<close> of all the objects allocated, one per command of the command stack,
  and each object points to the next one; the last points nowhere. In such a state
  no read of the parser is out of range.
\<close>

definition linked :: "argParser \<Rightarrow> bool" where
  "linked ap \<longleftrightarrow>
     heap ap \<noteq> [] \<and>
     semanticStack ap = [0..<length (heap ap)] \<and>
     length (commandStack ap) = length (heap ap) \<and>
     (\<forall>i. Suc i < length (heap ap) \<longrightarrow> subcommandRes (heap ap ! i) = Some (Suc i)) \<and>
     subcommandRes (heap ap ! (length (heap ap) - 1)) = None"

text \<open>
  The state \<open>ap\<close> that \<^verbatim>\<open>ParseArgs\<close> is in after it consumed the tokens \<open>pre\<close>, none of
  which gave an error or ended the process.
\<close>

definition reached :: "golib \<Rightarrow> Command \<Rightarrow> string list \<Rightarrow> argParser \<Rightarrow> bool" where
  "reached lib cli pre ap \<longleftrightarrow> consumeAll lib (startParse (newParser cli)) pre = (None, ap)"

text \<open>The flag has a callback, and the callback ends the process.\<close>

definition endsProcess :: "Flag \<Rightarrow> bool" where
  "endsProcess f = (case action f of None \<Rightarrow> False | Some c \<Rightarrow> exits c)"

text \<open>A bare token has no leading dash.\<close>

definition bare :: "string \<Rightarrow> bool" where
  "bare tok \<longleftrightarrow> \<not> HasPrefix tok ''-''"

text \<open>
  \<open>innermost tbl cs nm i x\<close>: searching the stack \<open>cs\<close> from its top (the command
  entered last) down to the root, level \<open>i\<close> is the first whose table \<open>tbl\<close> has
  the name \<open>nm\<close>, with entry \<open>x\<close>. \<open>undeclared tbl cs nm\<close>: no level has it.
\<close>

definition innermost :: "(Command \<Rightarrow> (string \<times> 'a) list) \<Rightarrow> Command list \<Rightarrow> string \<Rightarrow> nat \<Rightarrow> 'a \<Rightarrow> bool" where
  "innermost tbl cs nm i x \<longleftrightarrow>
     i < length cs \<and> map_of (tbl (cs ! i)) nm = Some x \<and>
     (\<forall>j\<in>set [Suc i..<length cs]. map_of (tbl (cs ! j)) nm = None)"

definition undeclared :: "(Command \<Rightarrow> (string \<times> 'a) list) \<Rightarrow> Command list \<Rightarrow> string \<Rightarrow> bool" where
  "undeclared tbl cs nm \<longleftrightarrow> (\<forall>j\<in>set [0..<length cs]. map_of (tbl (cs ! j)) nm = None)"

text \<open>
  The name and the raw value of a dashed token: the text before its first \<open>=\<close>
  without the leading dashes, and the text after its first \<open>=\<close>.
\<close>

definition tokenName :: "string \<Rightarrow> string" where
  "tokenName tok = dropWhile (\<lambda>c. c = CHR ''-'') (takeWhile (\<lambda>c. c \<noteq> CHR ''='') tok)"

definition tokenValue :: "string \<Rightarrow> string" where
  "tokenValue tok = (if CHR ''='' \<in> set tok then tl (dropWhile (\<lambda>c. c \<noteq> CHR ''='') tok) else [])"

text \<open>
  \<open>flagToken cs tok i f\<close>: on the stack \<open>cs\<close> the token \<open>tok\<close> names the flag \<open>f\<close> of level
  \<open>i\<close> (by its full name after two dashes, by its short name after one), and
  \<open>argToken cs tok i a\<close>: it gives a value to the argument \<open>a\<close> of level \<open>i\<close>.
  \<open>scopeResult ap i\<close> is the result object of level \<open>i\<close>.
\<close>

definition flagToken :: "Command list \<Rightarrow> string \<Rightarrow> nat \<Rightarrow> Flag \<Rightarrow> bool" where
  "flagToken cs tok i f \<longleftrightarrow>
     HasPrefix tok ''-'' \<and> tokenValue tok = [] \<and>
     innermost (if HasPrefix tok ''--'' then flags else flagsByShortName) cs (tokenName tok) i f"

definition argToken :: "Command list \<Rightarrow> string \<Rightarrow> nat \<Rightarrow> Argument \<Rightarrow> bool" where
  "argToken cs tok i a \<longleftrightarrow>
     HasPrefix tok ''-'' \<and> tokenValue tok \<noteq> [] \<and>
     innermost (if HasPrefix tok ''--'' then args else argsByShortName) cs (tokenName tok) i a"

definition scopeResult :: "argParser \<Rightarrow> nat \<Rightarrow> ArgParseResult" where
  "scopeResult ap i = heap ap ! (semanticStack ap ! i)"

text \<open>
  A valid command tree, as the builders of \<^verbatim>\<open>olive.go\<close> leave it: in every command
  each table has a key once, a flag or an argument stands under its name in the
  table of full names and under its short name in the other, a subcommand stands
  under its name, a command with subcommands has no primary argument, and the
  subcommands are valid.
\<close>

fun valid :: "Command \<Rightarrow> bool" where
  "valid (Command n d r subs fl ar fls ars p) \<longleftrightarrow>
     distinct (map fst subs) \<and> distinct (map fst fl) \<and> distinct (map fst ar) \<and>
     distinct (map fst fls) \<and> distinct (map fst ars) \<and>
     (\<forall>kf\<in>set fl. name (snd kf) = fst kf) \<and>
     (\<forall>kf\<in>set fls. shortName (snd kf) = fst kf) \<and>
     (\<forall>ka\<in>set ar. ArgName (snd ka) = fst ka) \<and>
     (\<forall>ka\<in>set ars. ShortName (snd ka) = fst ka) \<and>
     (subs \<noteq> [] \<longrightarrow> p = None) \<and>
     (\<forall>kc\<in>set subs. Name (snd kc) = fst kc \<and> valid (snd kc))"

text \<open>
  \<open>walk c ss\<close>: the commands from \<open>c\<close> down along the subcommand names \<open>ss\<close>, if
  each names a child of the command before.
\<close>

fun walk :: "Command \<Rightarrow> string list \<Rightarrow> Command list option" where
  "walk c [] = Some [c]"
| "walk c (s # ss) =
     (case map_of (subcommands c) s of
        None \<Rightarrow> None
      | Some c' \<Rightarrow> map_option ((#) c) (walk c' ss))"

text \<open>
  A legal token on the stack \<open>cs\<close> names a declared flag, or gives a declared
  argument a value that the argument accepts. Two tokens have the same target when
  they resolve to the same level and to flags, or arguments, of the same name.
\<close>

definition legalToken :: "golib \<Rightarrow> Command list \<Rightarrow> string \<Rightarrow> bool" where
  "legalToken lib cs tok \<longleftrightarrow>
     (\<exists>i f. flagToken cs tok i f) \<or>
     (\<exists>i a x. argToken cs tok i a \<and> snd (checkValue lib a (tokenValue tok)) = Inr x)"

definition sameTarget :: "Command list \<Rightarrow> string \<Rightarrow> string \<Rightarrow> bool" where
  "sameTarget cs t t' \<longleftrightarrow>
     (\<exists>i f f'. flagToken cs t i f \<and> flagToken cs t' i f' \<and> name f = name f') \<or>
     (\<exists>i a a'. argToken cs t i a \<and> argToken cs t' i a' \<and> ArgName a = ArgName a')"

text \<open>No two tokens of the list have the same target.\<close>

fun noRepeat :: "Command list \<Rightarrow> string list \<Rightarrow> bool" where
  "noRepeat cs [] \<longleftrightarrow> True"
| "noRepeat cs (t # ts) \<longleftrightarrow> (\<forall>t'\<in>set ts. \<not> sameTarget cs t t') \<and> noRepeat cs ts"

text \<open>
  The command tree with every \<^verbatim>\<open>required\<close> field cleared: of the named arguments, in
  both tables, and of the primary arguments, at every level.
\<close>

fun eraseArg :: "Argument \<Rightarrow> Argument" where
  "eraseArg (IntArgument ab v) = IntArgument (ab\<lparr>required := False\<rparr>) v"
| "eraseArg (FloatArgument ab v) = FloatArgument (ab\<lparr>required := False\<rparr>) v"
| "eraseArg (StringArgument ab v) = StringArgument (ab\<lparr>required := False\<rparr>) v"
| "eraseArg (SelectorArgument ab pv v) = SelectorArgument (ab\<lparr>required := False\<rparr>) pv v"

fun eraseRequired :: "Command \<Rightarrow> Command" where
  "eraseRequired (Command n d r subs fl ar fls ars p) =
     Command n d r (map (\<lambda>kc. (fst kc, eraseRequired (snd kc))) subs)
       fl (map (\<lambda>ka. (fst ka, eraseArg (snd ka))) ar)
       fls (map (\<lambda>ka. (fst ka, eraseArg (snd ka))) ars)
       (map_option (\<lambda>pa. pa\<lparr>prequired := False\<rparr>) p)"

definition eraseState :: "argParser \<Rightarrow> argParser" where
  "eraseState ap = ap\<lparr>initialCommand := eraseRequired (initialCommand ap),
                        commandStack := map eraseRequired (commandStack ap)\<rparr>"

section \<open>Examples\<close>

text \<open>
  A library for the examples: it reads unsigned decimal integers and no floats.
\<close>

definition digit :: "char \<Rightarrow> nat option" where
  "digit c = map_of [(CHR ''0'', 0), (CHR ''1'', 1), (CHR ''2'', 2), (CHR ''3'', 3), (CHR ''4'', 4),
                     (CHR ''5'', 5), (CHR ''6'', 6), (CHR ''7'', 7), (CHR ''8'', 8), (CHR ''9'', 9)] c"

fun decimal :: "nat \<Rightarrow> string \<Rightarrow> nat option" where
  "decimal n [] = Some n"
| "decimal n (c # s) = (case digit c of None \<Rightarrow> None | Some d \<Rightarrow> decimal (10 * n + d) s)"

definition exampleLib :: golib where
  "exampleLib =
     \<lparr>ParseInt = (\<lambda>s b w. if s = [] then Inl ErrSyntax
                           else case decimal 0 s of None \<Rightarrow> Inl ErrSyntax | Some n \<Rightarrow> Inr (int n)),
      ParseFloat = (\<lambda>s w. Inl ErrSyntax),
      UintSize = 64\<rparr>"

text \<open>
  The command line of \<^verbatim>\<open>TestValidatorsandDefaults\<close>, without its float argument:
  an integer argument that must be even and defaults to 0, a string argument of at
  most five bytes, a selector argument.
\<close>

definition mustBeEven :: "int \<Rightarrow> string option" where
  "mustBeEven x = (if x smod 2 = 1 then Some ''must be even'' else None)"

definition shortString :: "string \<Rightarrow> string option" where
  "shortString x = (if length x > 5 then Some ''must be shorter than 6 chars'' else None)"

definition notBadVal :: "string \<Rightarrow> string option" where
  "notBadVal x = (if x = ''badVal'' then Some ''bad val'' else None)"

definition intArg :: Argument where
  "intArg = IntArgument \<lparr>aname = ''int'', ashortName = ''i'', adesc = [], required = False,
                          defaultValue = IntV 0\<rparr> (Some mustBeEven)"

definition strArg :: Argument where
  "strArg = StringArgument \<lparr>aname = ''str'', ashortName = ''s'', adesc = [], required = False,
                             defaultValue = StringV ''val''\<rparr> (Some shortString)"

definition selArg :: Argument where
  "selArg = SelectorArgument \<lparr>aname = ''sel'', ashortName = ''se'', adesc = [], required = False,
                               defaultValue = StringV ''val1''\<rparr>
              {''val1'', ''val2'', ''badVal''} (Some notBadVal)"

definition validatorsCLI :: Command where
  "validatorsCLI =
     Command ''olive'' [] True [] []
       [(''int'', intArg), (''str'', strArg), (''sel'', selArg)] []
       [(''i'', intArg), (''s'', strArg), (''se'', selArg)] None"

text \<open>
  A part of the command line of \<^verbatim>\<open>TestCorrectFlagsandArgs\<close>: a flag and a string
  argument that share their names, and a flag with a callback.
\<close>

definition flag1 :: Flag where
  "flag1 = \<lparr>name = ''flag1'', shortName = ''f1'', desc = [], action = None\<rparr>"

definition flag2 :: Flag where
  "flag2 = \<lparr>name = ''flag2'', shortName = ''f2'', desc = [], action = Some (Returning 7)\<rparr>"

definition flag1Arg :: Argument where
  "flag1Arg = StringArgument \<lparr>aname = ''flag1'', ashortName = ''f1'', adesc = [], required = True,
                               defaultValue = NilV\<rparr> None"

definition flagsAndArgsCLI :: Command where
  "flagsAndArgsCLI =
     Command ''olive'' [] True []
       [(''flag1'', flag1), (''flag2'', flag2)] [(''flag1'', flag1Arg)]
       [(''f1'', flag1), (''f2'', flag2)] [(''f1'', flag1Arg)] None"

text \<open>The command line of \<^verbatim>\<open>TestBadInput2\<close>: a primary argument, a flag, a selector.\<close>

definition sel3Arg :: Argument where
  "sel3Arg = SelectorArgument \<lparr>aname = ''sel'', ashortName = ''s'', adesc = [], required = True,
                                defaultValue = NilV\<rparr> {''val1'', ''val2'', ''val3''} None"

definition primaryCLI :: Command where
  "primaryCLI =
     Command ''olive'' [] True [] [(''flag1'', flag1)] [(''sel'', sel3Arg)]
       [(''f1'', flag1)] [(''s'', sel3Arg)]
       (Some \<lparr>pname = ''primary'', pdesc = [], prequired = False\<rparr>)"

text \<open>
  A command line with a subcommand that declares a flag and an argument under names
  its parent uses too, and a flag that only the parent has.
\<close>

definition verboseRoot :: Flag where
  "verboseRoot = \<lparr>name = ''verbose'', shortName = ''v'', desc = [], action = Some (Returning 1)\<rparr>"

definition verboseBuild :: Flag where
  "verboseBuild = \<lparr>name = ''verbose'', shortName = ''v'', desc = [], action = Some (Returning 2)\<rparr>"

definition quietFlag :: Flag where
  "quietFlag = \<lparr>name = ''quiet'', shortName = ''q'', desc = [], action = None\<rparr>"

definition outRoot :: Argument where
  "outRoot = StringArgument \<lparr>aname = ''output'', ashortName = ''o'', adesc = [], required = False,
                              defaultValue = StringV ''root_path''\<rparr> None"

definition outBuild :: Argument where
  "outBuild = StringArgument \<lparr>aname = ''output'', ashortName = ''o'', adesc = [], required = True,
                               defaultValue = StringV ''cool_path''\<rparr> None"

definition buildCmd :: Command where
  "buildCmd =
     Command ''build'' [] True [] [(''verbose'', verboseBuild)] [(''output'', outBuild)]
       [(''v'', verboseBuild)] [(''o'', outBuild)] None"

definition shadowCLI :: Command where
  "shadowCLI =
     Command ''olive'' [] True [(''build'', buildCmd)]
       [(''verbose'', verboseRoot), (''quiet'', quietFlag)] [(''output'', outRoot)]
       [(''v'', verboseRoot), (''q'', quietFlag)] [(''o'', outRoot)] None"

text \<open>The state of a parse of \<open>cli\<close> after the tokens \<open>ts\<close>.\<close>

definition stateAfter :: "Command \<Rightarrow> string list \<Rightarrow> argParser" where
  "stateAfter cli ts = snd (consumeAll exampleLib (startParse (newParser cli)) ts)"

section \<open>Lemmas\<close>

subsection \<open>Splitting a token\<close>

lemma Split_nonempty: "Split s sep \<noteq> []"
  by (induction s) (auto split: list.splits)

lemma Split_no_sep: "sep \<notin> set s \<Longrightarrow> Split s sep = [s]"
  by (induction s) auto

lemma Split_at_first: "sep \<notin> set a \<Longrightarrow> Split (a @ sep # b) sep = a # Split b sep"
  by (induction a) auto

lemma Join_Split: "Join (Split s sep) [sep] = s"
proof (induction s)
  case Nil
  then show ?case by simp
next
  case (Cons c s)
  obtain p ps where ps: "Split s sep = p # ps"
    using Split_nonempty [of s sep] by (cases "Split s sep") auto
  show ?case
  proof (cases "c = sep")
    case True
    with Cons ps show ?thesis by simp
  next
    case False
    with Cons ps show ?thesis by (cases ps) auto
  qed
qed

lemma Split_first_sep:
  assumes "sep \<in> set s"
  shows "hd (Split s sep) = takeWhile (\<lambda>c. c \<noteq> sep) s"
    and "Join (tl (Split s sep)) [sep] = tl (dropWhile (\<lambda>c. c \<noteq> sep) s)"
proof -
  let ?a = "takeWhile (\<lambda>c. c \<noteq> sep) s" and ?d = "dropWhile (\<lambda>c. c \<noteq> sep) s"
  from assms have d: "?d = sep # tl ?d"
    by (metis (mono_tags, lifting) dropWhile_eq_Nil_conv hd_dropWhile list.collapse)
  have a: "sep \<notin> set ?a"
    by (auto dest: set_takeWhileD)
  have "s = ?a @ sep # tl ?d"
    using d takeWhile_dropWhile_id [of "\<lambda>c. c \<noteq> sep" s] by simp
  then have "Split s sep = ?a # Split (tl ?d) sep"
    using Split_at_first [OF a, of "tl ?d"] by simp
  then show "hd (Split s sep) = ?a" and "Join (tl (Split s sep)) [sep] = tl ?d"
    by (simp_all add: Join_Split)
qed

lemma takeWhile_no_sep: "sep \<notin> set s \<Longrightarrow> takeWhile (\<lambda>c. c \<noteq> sep) s = s"
  by (induction s) auto

lemma extractComponents_eq:
  "extractComponents arg =
     (dropWhile (\<lambda>c. c = CHR ''-'') (takeWhile (\<lambda>c. c \<noteq> CHR ''='') arg),
      if CHR ''='' \<in> set arg then tl (dropWhile (\<lambda>c. c \<noteq> CHR ''='') arg) else [])"
proof (cases "CHR ''='' \<in> set arg")
  case True
  then show ?thesis
    using Split_first_sep [OF True]
    by (simp add: extractComponents_def Contains_def TrimLeft_def)
next
  case False
  then show ?thesis
    by (simp add: extractComponents_def Contains_def TrimLeft_def takeWhile_no_sep)
qed

subsection \<open>The steps of the parser\<close>

lemma searchStack_Some:
  "searchStack tbl cs n nm = Some (i, x) \<longleftrightarrow>
     i < n \<and> map_of (tbl (cs ! i)) nm = Some x \<and>
     (\<forall>j. i < j \<and> j < n \<longrightarrow> map_of (tbl (cs ! j)) nm = None)"
proof (induction n)
  case 0
  then show ?case by simp
next
  case (Suc n)
  show ?case
  proof (cases "map_of (tbl (cs ! n)) nm")
    case None
    have "i < Suc n \<and> map_of (tbl (cs ! i)) nm = Some x \<and>
            (\<forall>j. i < j \<and> j < Suc n \<longrightarrow> map_of (tbl (cs ! j)) nm = None) \<longleftrightarrow>
          i < n \<and> map_of (tbl (cs ! i)) nm = Some x \<and>
            (\<forall>j. i < j \<and> j < n \<longrightarrow> map_of (tbl (cs ! j)) nm = None)"
      using None by (auto simp: less_Suc_eq)
    with None Suc show ?thesis by simp
  next
    case (Some y)
    show ?thesis
    proof
      assume "searchStack tbl cs (Suc n) nm = Some (i, x)"
      with Some show "i < Suc n \<and> map_of (tbl (cs ! i)) nm = Some x \<and>
         (\<forall>j. i < j \<and> j < Suc n \<longrightarrow> map_of (tbl (cs ! j)) nm = None)" by auto
    next
      assume a: "i < Suc n \<and> map_of (tbl (cs ! i)) nm = Some x \<and>
         (\<forall>j. i < j \<and> j < Suc n \<longrightarrow> map_of (tbl (cs ! j)) nm = None)"
      have "i = n"
      proof (rule ccontr)
        assume "i \<noteq> n"
        with a have "i < n" by simp
        with a have "map_of (tbl (cs ! n)) nm = None" by simp
        with Some show False by simp
      qed
      with a Some show "searchStack tbl cs (Suc n) nm = Some (i, x)" by simp
    qed
  qed
qed

lemma searchStack_None:
  "searchStack tbl cs n nm = None \<longleftrightarrow> (\<forall>j<n. map_of (tbl (cs ! j)) nm = None)"
  by (induction n) (auto simp: less_Suc_eq split: option.splits)

lemma searchStack_less: "searchStack tbl cs n nm = Some (i, x) \<Longrightarrow> i < n"
  by (simp add: searchStack_Some)

lemma consume_dashed:
  assumes "HasPrefix tok ''-''" and "extractComponents tok = (nm, v)"
  shows "consume lib ap tok =
     (let ap' = ap\<lparr>allowSubcommands := False\<rparr>; n = length (commandStack ap) in
      if HasPrefix tok ''--'' then
        (if v = [] then
           (case searchStack flags (commandStack ap) n nm of
              Some (i, flag) \<Rightarrow> setFlag ap' i flag
            | None \<Rightarrow> (Some (UnknownFlag nm), ap'))
         else
           (case searchStack args (commandStack ap) n nm of
              Some (i, a) \<Rightarrow> setArg lib ap' i a v
            | None \<Rightarrow> (Some (UnknownArgument nm), ap')))
      else
        (if v = [] then
           (case searchStack flagsByShortName (commandStack ap) n nm of
              Some (i, flag) \<Rightarrow> setFlag ap' i flag
            | None \<Rightarrow> (Some (UnknownFlagByShortName nm), ap'))
         else
           (case searchStack argsByShortName (commandStack ap) n nm of
              Some (i, a) \<Rightarrow> setArg lib ap' i a v
            | None \<Rightarrow> (Some (UnknownArgumentByShortName nm), ap'))))"
  using assms by (simp add: consume_def Let_def)


lemma consume_bare:
  assumes "\<not> HasPrefix tok ''-''"
  shows "consume lib ap tok =
     (if primaryArg (currCommand ap) \<noteq> None then
        (let ap' = ap\<lparr>allowSubcommands := False\<rparr> in
         if rprimaryArg (currResult ap) \<noteq> [] then
           (Some (MultiplePrimaryArguments (Name (currCommand ap))), ap')
         else
           (None, ap'\<lparr>heap := (heap ap)[currAddr ap := (currResult ap)\<lparr>rprimaryArg := tok\<rparr>]\<rparr>))
      else if allowSubcommands ap then
        (case map_of (subcommands (currCommand ap)) tok of
           Some subc \<Rightarrow>
              (None, ap\<lparr>commandStack := commandStack ap @ [subc],
                         heap := (heap ap @ [newResult])[currAddr ap := ((heap ap @ [newResult]) ! currAddr ap)\<lparr>subcommandRes := Some (length (heap ap)),
                                                   subcommandName := Name subc\<rparr>],
                         semanticStack := semanticStack ap @ [length (heap ap)]\<rparr>)
         | None \<Rightarrow> (Some (UnknownSubcommand tok), ap))
      else (Some (UnknownSubcommand tok), ap))"
proof -
  have "\<not> HasPrefix tok ''--''"
    using assms by (auto simp: HasPrefix_def dest: arg_cong [where f = "take 1"])
  with assms show ?thesis
    by (simp add: consume_def Let_def currCommand_def currResult_def currAddr_def
          split: option.splits)
qed

lemma setFlag_eq:
  "setFlag ap i f =
     (let a = semanticStack ap ! i; r = heap ap ! a in
      if name f \<in> rflags r then (Some (FlagSetMultipleTimes (name f)), ap)
      else (if endsProcess f then Some ProcessExit else None,
            ap\<lparr>heap := (heap ap)[a := r\<lparr>rflags := insert (name f) (rflags r)\<rparr>],
                 events := events ap @ (case action f of None \<Rightarrow> [] | Some c \<Rightarrow> [ActionRun c])\<rparr>))"
  by (simp add: setFlag_def endsProcess_def Let_def split: option.splits)

lemma setArg_eq:
  "setArg lib ap i arg v =
     (let a = semanticStack ap ! i; r = heap ap ! a in
      if Arguments r (ArgName arg) \<noteq> None then (Some (ArgumentSetMultipleTimes (ArgName arg)), ap)
      else (case snd (checkValue lib arg v) of
              Inl err \<Rightarrow> (Some err, ap\<lparr>events := events ap @ fst (checkValue lib arg v)\<rparr>)
            | Inr x \<Rightarrow> (None, ap\<lparr>heap := (heap ap)[a := r\<lparr>Arguments := (Arguments r)(ArgName arg \<mapsto> x)\<rparr>],
                                    events := events ap @ fst (checkValue lib arg v)\<rparr>)))"
  by (simp add: setArg_def Let_def split: prod.splits sum.splits)

lemma nth_update_total: "(xs[a := r]) ! i = (if a = i \<and> a < length xs then r else xs ! i)"
  by (cases "a < length xs") (auto simp: nth_list_update list_update_beyond)

lemma linked_latch [simp]: "linked (ap\<lparr>allowSubcommands := b\<rparr>) = linked ap"
  by (simp add: linked_def)

lemma linked_events [simp]: "linked (ap\<lparr>events := e\<rparr>) = linked ap"
  by (simp add: linked_def)

lemma linked_heap_update:
  assumes "linked ap" and "subcommandRes r = subcommandRes (heap ap ! a)"
    and "heap ap' = (heap ap)[a := r]" and "semanticStack ap' = semanticStack ap"
    and "commandStack ap' = commandStack ap"
  shows "linked ap'"
  using assms by (auto simp: linked_def nth_update_total)

lemma linked_addr: "linked ap \<Longrightarrow> i < length (commandStack ap) \<Longrightarrow> semanticStack ap ! i = i"
  by (simp add: linked_def)

lemma linked_currAddr: "linked ap \<Longrightarrow> currAddr ap = length (heap ap) - 1"
  by (cases "heap ap") (auto simp: linked_def currAddr_def nth_append)

lemma linked_nonempty: "linked ap \<Longrightarrow> commandStack ap \<noteq> []"
  by (auto simp: linked_def)

lemma setFlag_linked: "linked ap \<Longrightarrow> linked (snd (setFlag ap i f))"
  by (auto simp: setFlag_eq Let_def linked_def nth_update_total)

lemma setArg_linked: "linked ap \<Longrightarrow> linked (snd (setArg lib ap i a v))"
  by (auto simp: setArg_eq Let_def linked_def nth_update_total split: sum.splits)

lemma startParse_linked: "heap ap = [] \<Longrightarrow> linked (startParse ap)"
  by (simp add: startParse_def linked_def newResult_def)

lemma push_linked:
  assumes "linked ap"
  shows "linked (ap\<lparr>commandStack := commandStack ap @ [subc],
                    heap := (heap ap @ [newResult])[currAddr ap := ((heap ap @ [newResult]) ! currAddr ap)\<lparr>subcommandRes := Some (length (heap ap)),
                                                   subcommandName := nm\<rparr>],
                    semanticStack := semanticStack ap @ [length (heap ap)]\<rparr>)"
proof -
  from assms obtain n where n: "length (heap ap) = Suc n"
    by (cases "heap ap") (auto simp: linked_def)
  then have c: "currAddr ap = n" using assms by (simp add: linked_currAddr)
  show ?thesis
    using assms n unfolding c linked_def
    by (auto simp: nth_update_total nth_append newResult_def less_Suc_eq)
qed

lemma consume_linked:
  assumes "linked ap"
  shows "linked (snd (consume lib ap tok))"
proof (cases "HasPrefix tok ''-''")
  case True
  obtain nm v where e: "extractComponents tok = (nm, v)" by (cases "extractComponents tok")
  show ?thesis
    using assms
    by (simp add: consume_dashed [OF True e] Let_def setFlag_linked setArg_linked split: option.splits)
next
  case False
  show ?thesis
  proof (cases "primaryArg (currCommand ap) \<noteq> None")
    case True
    with assms show ?thesis
      by (auto simp: consume_bare [OF False] Let_def currResult_def linked_def nth_update_total)
  next
    case False
    with assms show ?thesis
      by (auto simp: consume_bare [OF \<open>\<not> HasPrefix tok ''-''\<close>] push_linked split: option.splits)
  qed
qed

lemma consumeAll_linked: "linked ap \<Longrightarrow> linked (snd (consumeAll lib ap ts))"
proof (induction ts arbitrary: ap)
  case Nil
  then show ?case by simp
next
  case (Cons t ts)
  from Cons.prems have "linked (snd (consume lib ap t))" by (rule consume_linked)
  with Cons.IH show ?case
    by (cases "consume lib ap t") (auto split: option.splits)
qed

lemma innermost_search:
  "innermost tbl cs nm i x \<Longrightarrow> searchStack tbl cs (length cs) nm = Some (i, x)"
  by (auto simp: innermost_def searchStack_Some)

lemma undeclared_search:
  "undeclared tbl cs nm \<Longrightarrow> searchStack tbl cs (length cs) nm = None"
  by (auto simp: undeclared_def searchStack_None)

lemma consumeAll_error: "consume lib ap tok = (Some e, ap') \<Longrightarrow> consumeAll lib ap (tok # rest) = (Some e, ap')"
  by simp

lemma setFlag_stacks [simp]:
  "commandStack (snd (setFlag ap i f)) = commandStack ap"
  "semanticStack (snd (setFlag ap i f)) = semanticStack ap"
  "allowSubcommands (snd (setFlag ap i f)) = allowSubcommands ap"
  "length (heap (snd (setFlag ap i f))) = length (heap ap)"
  "result (snd (setFlag ap i f)) = result ap"
  by (simp_all add: setFlag_eq Let_def)

lemma setArg_stacks [simp]:
  "commandStack (snd (setArg lib ap i a v)) = commandStack ap"
  "semanticStack (snd (setArg lib ap i a v)) = semanticStack ap"
  "allowSubcommands (snd (setArg lib ap i a v)) = allowSubcommands ap"
  "length (heap (snd (setArg lib ap i a v))) = length (heap ap)"
  "result (snd (setArg lib ap i a v)) = result ap"
  by (simp_all add: setArg_eq Let_def split: sum.splits)

lemma setFlag_cell [simp]:
  "rprimaryArg (heap (snd (setFlag ap i f)) ! a) = rprimaryArg (heap ap ! a)"
  "subcommandRes (heap (snd (setFlag ap i f)) ! a) = subcommandRes (heap ap ! a)"
  "subcommandName (heap (snd (setFlag ap i f)) ! a) = subcommandName (heap ap ! a)"
  "Arguments (heap (snd (setFlag ap i f)) ! a) = Arguments (heap ap ! a)"
  by (simp_all add: setFlag_eq Let_def nth_update_total)

lemma setArg_cell [simp]:
  "rprimaryArg (heap (snd (setArg lib ap i arg v)) ! a) = rprimaryArg (heap ap ! a)"
  "subcommandRes (heap (snd (setArg lib ap i arg v)) ! a) = subcommandRes (heap ap ! a)"
  "subcommandName (heap (snd (setArg lib ap i arg v)) ! a) = subcommandName (heap ap ! a)"
  "rflags (heap (snd (setArg lib ap i arg v)) ! a) = rflags (heap ap ! a)"
  by (simp_all add: setArg_eq Let_def nth_update_total split: sum.splits)

text \<open>What a dashed token leaves unchanged.\<close>

lemma consume_dashed_frame:
  assumes "HasPrefix tok ''-''"
  shows "commandStack (snd (consume lib ap tok)) = commandStack ap"
    and "semanticStack (snd (consume lib ap tok)) = semanticStack ap"
    and "\<not> allowSubcommands (snd (consume lib ap tok))"
    and "length (heap (snd (consume lib ap tok))) = length (heap ap)"
    and "rprimaryArg (heap (snd (consume lib ap tok)) ! a) = rprimaryArg (heap ap ! a)"
    and "subcommandRes (heap (snd (consume lib ap tok)) ! a) = subcommandRes (heap ap ! a)"
    and "subcommandName (heap (snd (consume lib ap tok)) ! a) = subcommandName (heap ap ! a)"
proof -
  obtain nm v where e: "extractComponents tok = (nm, v)" by (cases "extractComponents tok")
  note c = consume_dashed [OF assms e, of lib ap]
  show "commandStack (snd (consume lib ap tok)) = commandStack ap"
    by (simp add: c Let_def split: option.splits)
  show "semanticStack (snd (consume lib ap tok)) = semanticStack ap"
    by (simp add: c Let_def split: option.splits)
  show "\<not> allowSubcommands (snd (consume lib ap tok))"
    by (simp add: c Let_def split: option.splits)
  show "length (heap (snd (consume lib ap tok))) = length (heap ap)"
    by (simp add: c Let_def split: option.splits)
  show "rprimaryArg (heap (snd (consume lib ap tok)) ! a) = rprimaryArg (heap ap ! a)"
    by (simp add: c Let_def split: option.splits)
  show "subcommandRes (heap (snd (consume lib ap tok)) ! a) = subcommandRes (heap ap ! a)"
    by (simp add: c Let_def split: option.splits)
  show "subcommandName (heap (snd (consume lib ap tok)) ! a) = subcommandName (heap ap ! a)"
    by (simp add: c Let_def split: option.splits)
qed

lemma consumeAll_dashed_frame:
  assumes "\<forall>t\<in>set ds. HasPrefix t ''-''"
  shows "commandStack (snd (consumeAll lib ap ds)) = commandStack ap
       \<and> semanticStack (snd (consumeAll lib ap ds)) = semanticStack ap
       \<and> length (heap (snd (consumeAll lib ap ds))) = length (heap ap)
       \<and> (\<forall>a. rprimaryArg (heap (snd (consumeAll lib ap ds)) ! a) = rprimaryArg (heap ap ! a))"
  using assms
proof (induction ds arbitrary: ap)
  case Nil
  then show ?case by simp
next
  case (Cons t ds)
  then have t: "HasPrefix t ''-''" and ds: "\<forall>t\<in>set ds. HasPrefix t ''-''" by simp_all
  obtain e ap' where c: "consume lib ap t = (e, ap')" by (cases "consume lib ap t")
  have f: "commandStack ap' = commandStack ap" "semanticStack ap' = semanticStack ap"
    "length (heap ap') = length (heap ap)" "\<And>a. rprimaryArg (heap ap' ! a) = rprimaryArg (heap ap ! a)"
    using consume_dashed_frame [OF t, of lib ap] c by simp_all
  show ?case
  proof (cases e)
    case None
    with c Cons.IH [OF ds, of ap'] f show ?thesis by simp
  next
    case (Some err)
    with c f show ?thesis by simp
  qed
qed

lemma currResult_frame:
  "semanticStack ap' = semanticStack ap \<Longrightarrow> currAddr ap' = currAddr ap"
  by (simp add: currAddr_def)

lemma currCommand_frame:
  "commandStack ap' = commandStack ap \<Longrightarrow> currCommand ap' = currCommand ap"
  by (simp add: currCommand_def)

lemma reached_linked: "reached lib cli pre ap \<Longrightarrow> linked ap"
  using consumeAll_linked [OF startParse_linked, of "newParser cli" lib pre]
  by (simp add: reached_def newParser_def)

lemma consumeAll_append:
  "consumeAll lib ap (xs @ ys) =
     (case consumeAll lib ap xs of
        (Some e, ap') \<Rightarrow> (Some e, ap')
      | (None, ap') \<Rightarrow> consumeAll lib ap' ys)"
  by (induction xs arbitrary: ap) (auto split: prod.splits option.splits)

lemmas run_defs =
  consume_def consumeAll.simps HasPrefix_def extractComponents_eq searchStack.simps
  setFlag_def setArg_def startParse_def newParser_def newResult_def currCommand_def
  currResult_def currAddr_def Let_def ArgName_def validate_def stateAfter_def bare_def
  reached_def

lemma curr_updates [simp]:
  "currAddr (ap\<lparr>heap := h\<rparr>) = currAddr ap"
  "currAddr (ap\<lparr>allowSubcommands := b\<rparr>) = currAddr ap"
  "currAddr (ap\<lparr>events := e\<rparr>) = currAddr ap"
  "currCommand (ap\<lparr>heap := h\<rparr>) = currCommand ap"
  "currCommand (ap\<lparr>allowSubcommands := b\<rparr>) = currCommand ap"
  "currCommand (ap\<lparr>events := e\<rparr>) = currCommand ap"
  by (simp_all add: currAddr_def currCommand_def)

lemma bare_count_step:
  assumes l: "linked ap" and c: "consume lib ap t = (None, ap')"
    and n: "length (commandStack ap) - 1 \<le> n"
    and z: "n = length (commandStack ap) - 1 \<longrightarrow> rprimaryArg (currResult ap) = []"
  shows "length (commandStack ap') - 1 \<le> n + (if bare t then 1 else 0)
       \<and> (n + (if bare t then 1 else 0) = length (commandStack ap') - 1 \<longrightarrow> rprimaryArg (currResult ap') = [])"
proof (cases "HasPrefix t ''-''")
  case True
  have "commandStack ap' = commandStack ap" "semanticStack ap' = semanticStack ap"
       "rprimaryArg (heap ap' ! a) = rprimaryArg (heap ap ! a)" for a
    using consume_dashed_frame [OF True, of lib ap] c by simp_all
  with True n z show ?thesis
    by (simp add: bare_def currResult_def currAddr_def)
next
  case False
  from l obtain k where k: "length (heap ap) = Suc k"
    by (cases "heap ap") (auto simp: linked_def)
  with l have len: "length (commandStack ap) = Suc k" and ca: "currAddr ap = k"
    by (simp_all add: linked_def linked_currAddr)
  show ?thesis
  proof (cases "primaryArg (currCommand ap) \<noteq> None")
    case True
    with c have "commandStack ap' = commandStack ap"
      by (auto simp: consume_bare [OF False] Let_def split: if_splits)
    with False n show ?thesis by (simp add: bare_def)
  next
    case np: False
    with c obtain subc where ap': "ap' = ap\<lparr>commandStack := commandStack ap @ [subc],
                         heap := (heap ap @ [newResult])[currAddr ap := ((heap ap @ [newResult]) ! currAddr ap)\<lparr>subcommandRes := Some (length (heap ap)),
                                                   subcommandName := Name subc\<rparr>],
                         semanticStack := semanticStack ap @ [length (heap ap)]\<rparr>"
      by (auto simp: consume_bare [OF False] split: if_splits option.splits)
    have "rprimaryArg (currResult ap') = []"
      using l by (simp add: ap' currResult_def currAddr_def k ca nth_update_total nth_append newResult_def)
    moreover have "length (commandStack ap') = Suc (length (commandStack ap))"
      by (simp add: ap')
    ultimately show ?thesis using False n len by (simp add: bare_def)
  qed
qed

lemma bare_count_run:
  assumes "linked ap" and "consumeAll lib ap ts = (None, ap')"
    and "length (commandStack ap) - 1 \<le> n"
    and "n = length (commandStack ap) - 1 \<longrightarrow> rprimaryArg (currResult ap) = []"
  shows "n + length (filter bare ts) = length (commandStack ap') - 1 \<longrightarrow> rprimaryArg (currResult ap') = []"
  using assms
proof (induction ts arbitrary: ap n)
  case Nil
  then show ?case by simp
next
  case (Cons t ts)
  from Cons.prems(2) obtain ap1 where c: "consume lib ap t = (None, ap1)"
    and r: "consumeAll lib ap1 ts = (None, ap')"
    by (cases "consume lib ap t") (auto split: option.splits)
  have l1: "linked ap1" using consume_linked [OF Cons.prems(1), of lib t] c by simp
  note s = bare_count_step [OF Cons.prems(1) c Cons.prems(3,4)]
  from Cons.IH [OF l1 r conjunct1 [OF s] conjunct2 [OF s]] show ?case
    by (simp add: add.commute add.left_commute)
qed

lemma first_bare_unrecorded:
  assumes "reached lib cli pre ap" and "length (filter bare pre) = length (commandStack ap) - 1"
  shows "rprimaryArg (currResult ap) = []"
proof -
  let ?s = "startParse (newParser cli)"
  have "linked ?s" by (simp add: startParse_linked newParser_def)
  moreover have "consumeAll lib ?s pre = (None, ap)" using assms(1) by (simp add: reached_def)
  moreover have "length (commandStack ?s) - 1 \<le> 0" by (simp add: startParse_def Let_def)
  moreover have "0 = length (commandStack ?s) - 1 \<longrightarrow> rprimaryArg (currResult ?s) = []"
    by (simp add: startParse_def newParser_def currResult_def currAddr_def newResult_def Let_def)
  ultimately show ?thesis
    using bare_count_run [of ?s lib pre ap 0] assms(2) by simp
qed

lemma innermost_or_undeclared:
  "undeclared tbl cs nm \<or> (\<exists>i x. innermost tbl cs nm i x)"
proof (cases "searchStack tbl cs (length cs) nm")
  case None
  then show ?thesis by (auto simp: searchStack_None undeclared_def)
next
  case (Some p)
  obtain i x where "p = (i, x)" by (cases p)
  with Some show ?thesis by (auto simp: searchStack_Some innermost_def)
qed

lemma dropWhile_no_sep: "sep \<notin> set s \<Longrightarrow> dropWhile (\<lambda>c. c \<noteq> sep) s = []"
  by (induction s) auto

lemma consume_latch_cleared:
  assumes "consume lib ap tok = (None, ap')" and "HasPrefix tok ''-'' \<or> primaryArg (currCommand ap) \<noteq> None"
  shows "\<not> allowSubcommands ap'"
proof (cases "HasPrefix tok ''-''")
  case True
  then show ?thesis using consume_dashed_frame(3) [OF True, of lib ap] assms(1) by simp
next
  case False
  with assms show ?thesis
    by (auto simp: consume_bare [OF False] Let_def split: if_splits)
qed

lemma consume_latch_frozen:
  assumes "\<not> allowSubcommands ap"
  shows "\<not> allowSubcommands (snd (consume lib ap tok)) \<and> commandStack (snd (consume lib ap tok)) = commandStack ap"
proof (cases "HasPrefix tok ''-''")
  case True
  then show ?thesis using consume_dashed_frame [OF True, of lib ap] by simp
next
  case False
  with assms show ?thesis
    by (simp add: consume_bare [OF False] Let_def)
qed

lemma consumeAll_latch_frozen:
  assumes "\<not> allowSubcommands ap"
  shows "\<not> allowSubcommands (snd (consumeAll lib ap ts)) \<and> commandStack (snd (consumeAll lib ap ts)) = commandStack ap"
  using assms
proof (induction ts arbitrary: ap)
  case Nil
  then show ?case by simp
next
  case (Cons t ts)
  note f = consume_latch_frozen [OF Cons.prems, of lib t]
  obtain e ap1 where c: "consume lib ap t = (e, ap1)" by (cases "consume lib ap t")
  with f have f1: "\<not> allowSubcommands ap1" "commandStack ap1 = commandStack ap" by simp_all
  show ?case
  proof (cases e)
    case None
    with c Cons.IH [OF f1(1)] f1 show ?thesis by simp
  next
    case (Some err)
    with c f1 Cons.prems show ?thesis by simp
  qed
qed

lemma reached_snoc:
  "reached lib cli (pre @ [t]) ap' \<longleftrightarrow> (\<exists>ap. reached lib cli pre ap \<and> consume lib ap t = (None, ap'))"
  by (auto simp: reached_def consumeAll_append split: prod.splits option.splits)

text \<open>
  The subcommands entered are the first tokens of the list, one after the other,
  and as long as the latch is set nothing else was consumed.
\<close>

lemma subcommands_are_a_prefix:
  assumes "reached lib cli pre ap"
  shows "length (commandStack ap) \<le> Suc (length pre)
       \<and> commandStack ap ! 0 = cli
       \<and> (\<forall>i. Suc i < length (commandStack ap) \<longrightarrow>
             bare (pre ! i) \<and> map_of (subcommands (commandStack ap ! i)) (pre ! i) = Some (commandStack ap ! Suc i))
       \<and> (allowSubcommands ap \<longrightarrow> length (commandStack ap) = Suc (length pre))"
  using assms
proof (induction pre arbitrary: ap rule: rev_induct)
  case Nil
  then have "ap = startParse (newParser cli)" by (simp add: reached_def)
  then show ?case by (simp add: startParse_def newParser_def Let_def)
next
  case (snoc t pre)
  then obtain ap0 where r: "reached lib cli pre ap0" and c: "consume lib ap0 t = (None, ap)"
    by (auto simp: reached_snoc)
  note IH = snoc.IH [OF r]
  have l: "linked ap0" using r by (rule reached_linked)
  then have ne: "commandStack ap0 \<noteq> []" by (rule linked_nonempty)
  show ?case
  proof (cases "allowSubcommands ap")
    case False
    have cs: "commandStack ap = commandStack ap0"
    proof (cases "HasPrefix t ''-''")
      case True
      then show ?thesis using consume_dashed_frame(1) [OF True, of lib ap0] c by simp
    next
      case nb: False
      with c \<open>\<not> allowSubcommands ap\<close> show ?thesis
        by (auto simp: consume_bare [OF nb] Let_def split: if_splits option.splits)
    qed
    from IH have "\<forall>i. Suc i < length (commandStack ap0) \<longrightarrow> i < length pre" by auto
    with IH False show ?thesis
      by (auto simp: cs nth_append)
  next
    case True
    have nb: "\<not> HasPrefix t ''-''"
      using consume_latch_cleared [OF c] True by blast
    have np: "primaryArg (currCommand ap0) = None"
      using consume_latch_cleared [OF c] True by blast
    from c nb np True obtain subc where s: "map_of (subcommands (currCommand ap0)) t = Some subc"
      and a0: "allowSubcommands ap0" and cs: "commandStack ap = commandStack ap0 @ [subc]"
      by (auto simp: consume_bare [OF nb] split: if_splits option.splits)
    from IH a0 have len: "length (commandStack ap0) = Suc (length pre)" by simp
    have cur: "currCommand ap0 = commandStack ap0 ! length pre"
      by (simp add: currCommand_def len)
    show ?thesis
      using IH s nb
      by (auto simp: cs len cur nth_append bare_def less_Suc_eq)
  qed
qed

lemma validate_error: "snd (validate nm validator v box) \<noteq> Inl (RequiresASubcommand n)"
  by (simp add: validate_def split: option.splits)

lemma checkValue_error: "snd (checkValue lib a v) \<noteq> Inl (RequiresASubcommand n)"
  by (cases a) (auto simp: validate_error split: sum.splits)

lemma setFlag_error: "fst (setFlag ap i f) \<noteq> Some (RequiresASubcommand n)"
  by (simp add: setFlag_eq Let_def)

lemma setArg_error: "fst (setArg lib ap i a v) \<noteq> Some (RequiresASubcommand n)"
  using checkValue_error [of lib a v n]
  by (auto simp: setArg_eq Let_def split: sum.splits)

lemma consume_error: "fst (consume lib ap tok) \<noteq> Some (RequiresASubcommand n)"
proof (cases "HasPrefix tok ''-''")
  case True
  obtain nm v where e: "extractComponents tok = (nm, v)" by (cases "extractComponents tok")
  show ?thesis
    by (simp add: consume_dashed [OF True e] Let_def setFlag_error setArg_error split: option.splits)
next
  case False
  then show ?thesis
    by (simp add: consume_bare [OF False] Let_def split: option.splits)
qed

lemma consumeAll_error_kind: "fst (consumeAll lib ap ts) \<noteq> Some (RequiresASubcommand n)"
proof (induction ts arbitrary: ap)
  case Nil
  then show ?case by simp
next
  case (Cons t ts)
  obtain e ap1 where c: "consume lib ap t = (e, ap1)" by (cases "consume lib ap t")
  with consume_error [of lib ap t n] Cons.IH [of ap1] show ?case
    by (cases e) auto
qed

lemma parse_requires:
  "parse lib (newParser cli) ts = (Inl (RequiresASubcommand n), ap) \<longleftrightarrow>
     reached lib cli ts ap \<and> subcommands (currCommand ap) \<noteq> [] \<and> RequiresSubcommand (currCommand ap)
     \<and> n = Name (currCommand ap)"
proof -
  obtain e ap1 where c: "consumeAll lib (startParse (newParser cli)) ts = (e, ap1)"
    by (cases "consumeAll lib (startParse (newParser cli)) ts")
  show ?thesis
  proof (cases e)
    case None
    with c show ?thesis by (auto simp: parse_def reached_def)
  next
    case (Some err)
    with c consumeAll_error_kind [of lib "startParse (newParser cli)" ts n]
    show ?thesis by (auto simp: parse_def reached_def)
  qed
qed

lemma extractComponents_token: "extractComponents tok = (tokenName tok, tokenValue tok)"
  by (simp add: extractComponents_eq tokenName_def tokenValue_def)

lemma consume_flagToken:
  "flagToken (commandStack ap) tok i f \<Longrightarrow> consume lib ap tok = setFlag (ap\<lparr>allowSubcommands := False\<rparr>) i f"
  by (auto simp: flagToken_def consume_dashed [OF _ extractComponents_token] Let_def
           dest!: innermost_search split: if_splits)

lemma consume_argToken:
  "argToken (commandStack ap) tok i a \<Longrightarrow>
     consume lib ap tok = setArg lib (ap\<lparr>allowSubcommands := False\<rparr>) i a (tokenValue tok)"
  by (auto simp: argToken_def consume_dashed [OF _ extractComponents_token] Let_def
           dest!: innermost_search split: if_splits)

lemma flagToken_dashed: "flagToken cs tok i f \<Longrightarrow> HasPrefix tok ''-''"
  and argToken_dashed: "argToken cs tok i a \<Longrightarrow> HasPrefix tok ''-''"
  by (simp_all add: flagToken_def argToken_def)

lemma flagToken_level: "flagToken cs tok i f \<Longrightarrow> i < length cs"
  and argToken_level: "argToken cs tok i a \<Longrightarrow> i < length cs"
  by (simp_all add: flagToken_def argToken_def innermost_def)

lemma scopeResult_updates [simp]:
  "scopeResult (ap\<lparr>allowSubcommands := b\<rparr>) i = scopeResult ap i"
  "scopeResult (ap\<lparr>events := e\<rparr>) i = scopeResult ap i"
  by (simp_all add: scopeResult_def)

text \<open>What is marked or stored in a result stays so.\<close>

lemma setFlag_mono:
  "rflags (scopeResult ap i) \<subseteq> rflags (scopeResult (snd (setFlag ap j f)) i)"
  by (auto simp: setFlag_eq Let_def scopeResult_def nth_update_total)

lemma setArg_mono:
  "Arguments (scopeResult ap i) n = Some x \<Longrightarrow> Arguments (scopeResult (snd (setArg lib ap j a v)) i) n = Some x"
  by (auto simp: setArg_eq Let_def scopeResult_def nth_update_total split: sum.splits)

lemma setFlag_scope_args [simp]:
  "Arguments (scopeResult (snd (setFlag ap j f)) i) = Arguments (scopeResult ap i)"
  by (simp add: scopeResult_def)

lemma setArg_scope_flags [simp]:
  "rflags (scopeResult (snd (setArg lib ap j a v)) i) = rflags (scopeResult ap i)"
  by (simp add: scopeResult_def)

lemma consume_mono:
  assumes "linked ap" and "i < length (commandStack ap)"
  shows "rflags (scopeResult ap i) \<subseteq> rflags (scopeResult (snd (consume lib ap tok)) i)"
    and "Arguments (scopeResult ap i) n = Some x \<Longrightarrow> Arguments (scopeResult (snd (consume lib ap tok)) i) n = Some x"
proof -
  have "rflags (scopeResult ap i) \<subseteq> rflags (scopeResult (snd (consume lib ap tok)) i)
      \<and> (Arguments (scopeResult ap i) n = Some x \<longrightarrow> Arguments (scopeResult (snd (consume lib ap tok)) i) n = Some x)"
  proof (cases "HasPrefix tok ''-''")
    case True
    show ?thesis
      using setFlag_mono [of "ap\<lparr>allowSubcommands := False\<rparr>" i] setArg_mono [of "ap\<lparr>allowSubcommands := False\<rparr>" i n x lib]
      by (auto simp: consume_dashed [OF True extractComponents_token] Let_def split: option.splits)
  next
    case False
    from assms obtain k where k: "length (heap ap) = Suc k"
      by (cases "heap ap") (auto simp: linked_def)
    with assms have ss: "semanticStack ap = [0..<Suc k]" and ik: "i \<le> k"
      by (auto simp: linked_def)
    then have si: "semanticStack ap ! i = i"
      by (metis assms(1,2) linked_addr)
    have ca: "currAddr ap = k" using assms(1) k by (simp add: linked_currAddr)
    have il: "i < length (semanticStack ap)" using ss ik by simp
    show ?thesis
      using ik k il
      by (auto simp: consume_bare [OF False] Let_def scopeResult_def si ca nth_update_total nth_append
                     currResult_def
               simp del: upt_Suc split: option.splits)
  qed
  then show "rflags (scopeResult ap i) \<subseteq> rflags (scopeResult (snd (consume lib ap tok)) i)"
    and "Arguments (scopeResult ap i) n = Some x \<Longrightarrow> Arguments (scopeResult (snd (consume lib ap tok)) i) n = Some x"
    by simp_all
qed

lemma consume_stack_grows: "length (commandStack ap) \<le> length (commandStack (snd (consume lib ap tok)))"
proof (cases "HasPrefix tok ''-''")
  case True
  then show ?thesis by (simp add: consume_dashed_frame)
next
  case False
  then show ?thesis by (simp add: consume_bare Let_def split: option.splits)
qed

lemma consumeAll_mono:
  assumes "linked ap" and "i < length (commandStack ap)"
  shows "rflags (scopeResult ap i) \<subseteq> rflags (scopeResult (snd (consumeAll lib ap ts)) i)
       \<and> (Arguments (scopeResult ap i) n = Some x \<longrightarrow> Arguments (scopeResult (snd (consumeAll lib ap ts)) i) n = Some x)"
  using assms
proof (induction ts arbitrary: ap)
  case Nil
  then show ?case by simp
next
  case (Cons t ts)
  obtain e ap1 where c: "consume lib ap t = (e, ap1)" by (cases "consume lib ap t")
  have l1: "linked ap1" using consume_linked [OF Cons.prems(1), of lib t] c by simp
  have i1: "i < length (commandStack ap1)"
    using consume_stack_grows [of ap lib t] c Cons.prems(2) by simp
  have m: "rflags (scopeResult ap i) \<subseteq> rflags (scopeResult (snd (consume lib ap t)) i)"
    "Arguments (scopeResult ap i) n = Some x \<Longrightarrow> Arguments (scopeResult (snd (consume lib ap t)) i) n = Some x"
    using consume_mono [OF Cons.prems] by blast+
  show ?case
  proof (cases e)
    case None
    with c Cons.IH [OF l1 i1] m show ?thesis by auto
  next
    case (Some err)
    with c m show ?thesis by auto
  qed
qed

lemma consumeAll_dashed_first:
  assumes "HasPrefix t ''-''" and "consumeAll lib ap (t # mid) = (None, ap2)"
  shows "commandStack ap2 = commandStack ap"
proof -
  obtain ap1 where c: "consume lib ap t = (None, ap1)" and r: "consumeAll lib ap1 mid = (None, ap2)"
    using assms(2) by (cases "consume lib ap t") (auto split: option.splits)
  have "commandStack ap1 = commandStack ap" "\<not> allowSubcommands ap1"
    using consume_dashed_frame [OF assms(1), of lib ap] c by simp_all
  then show ?thesis
    using consumeAll_latch_frozen [of ap1 lib mid] r by simp
qed

lemma set_flag_again:
  assumes l: "linked ap" and t1: "flagToken (commandStack ap) t1 i f1" and t2: "flagToken (commandStack ap) t2 i f2"
    and n: "name f1 = name f2" and c: "consumeAll lib ap (t1 # mid) = (None, ap2)"
  shows "consume lib ap2 t2 = (Some (FlagSetMultipleTimes (name f2)), ap2\<lparr>allowSubcommands := False\<rparr>)"
proof -
  let ?ap = "ap\<lparr>allowSubcommands := False\<rparr>"
  have d: "HasPrefix t1 ''-''" using t1 by (rule flagToken_dashed)
  have i: "i < length (commandStack ap)" using t1 by (rule flagToken_level)
  obtain ap1 where c1: "consume lib ap t1 = (None, ap1)" and r: "consumeAll lib ap1 mid = (None, ap2)"
    using c by (cases "consume lib ap t1") (auto split: option.splits)
  have s: "setFlag ?ap i f1 = (None, ap1)" using c1 consume_flagToken [OF t1, of lib] by simp
  then have "name f1 \<in> rflags (scopeResult ap1 i)"
    using l i by (auto simp: setFlag_eq Let_def scopeResult_def linked_def nth_update_total split: if_splits)
  moreover have l1: "linked ap1" using consume_linked [OF l, of lib t1] c1 by simp
  moreover have cs1: "commandStack ap1 = commandStack ap"
    using consume_dashed_frame(1) [OF d, of lib ap] c1 by simp
  ultimately have "name f1 \<in> rflags (scopeResult ap2 i)"
    using consumeAll_mono [where ap = ap1 and i = i and lib = lib and ts = mid] r i by auto
  moreover have "commandStack ap2 = commandStack ap" using consumeAll_dashed_first [OF d c] .
  ultimately show ?thesis
    using t2 n by (simp add: consume_flagToken setFlag_eq Let_def scopeResult_def)
qed

lemma set_arg_again:
  assumes l: "linked ap" and t1: "argToken (commandStack ap) t1 i a1" and t2: "argToken (commandStack ap) t2 i a2"
    and n: "ArgName a1 = ArgName a2" and c: "consumeAll lib ap (t1 # mid) = (None, ap2)"
  shows "consume lib ap2 t2 = (Some (ArgumentSetMultipleTimes (ArgName a2)), ap2\<lparr>allowSubcommands := False\<rparr>)"
proof -
  let ?ap = "ap\<lparr>allowSubcommands := False\<rparr>"
  have d: "HasPrefix t1 ''-''" using t1 by (rule argToken_dashed)
  have i: "i < length (commandStack ap)" using t1 by (rule argToken_level)
  obtain ap1 where c1: "consume lib ap t1 = (None, ap1)" and r: "consumeAll lib ap1 mid = (None, ap2)"
    using c by (cases "consume lib ap t1") (auto split: option.splits)
  have s: "setArg lib ?ap i a1 (tokenValue t1) = (None, ap1)" using c1 consume_argToken [OF t1, of lib] by simp
  then obtain x where "Arguments (scopeResult ap1 i) (ArgName a1) = Some x"
    using l i by (auto simp: setArg_eq Let_def scopeResult_def linked_def nth_update_total split: if_splits sum.splits)
  moreover have l1: "linked ap1" using consume_linked [OF l, of lib t1] c1 by simp
  moreover have cs1: "commandStack ap1 = commandStack ap"
    using consume_dashed_frame(1) [OF d, of lib ap] c1 by simp
  ultimately have "Arguments (scopeResult ap2 i) (ArgName a1) = Some x"
    using consumeAll_mono [where ap = ap1 and i = i and lib = lib and n = "ArgName a1" and x = x and ts = mid] r i
    by auto
  moreover have "commandStack ap2 = commandStack ap" using consumeAll_dashed_first [OF d c] .
  ultimately show ?thesis
    using t2 n by (simp add: consume_argToken setArg_eq Let_def scopeResult_def)
qed

lemma map_of_map_snd:
  "map_of (map (\<lambda>kv. (fst kv, g (snd kv))) xs) k = map_option g (map_of xs k)"
  by (induction xs) auto

lemma erase_fields [simp]:
  "Name (eraseRequired c) = Name c"
  "RequiresSubcommand (eraseRequired c) = RequiresSubcommand c"
  "flags (eraseRequired c) = flags c"
  "flagsByShortName (eraseRequired c) = flagsByShortName c"
  "args (eraseRequired c) = map (\<lambda>ka. (fst ka, eraseArg (snd ka))) (args c)"
  "argsByShortName (eraseRequired c) = map (\<lambda>ka. (fst ka, eraseArg (snd ka))) (argsByShortName c)"
  "subcommands (eraseRequired c) = map (\<lambda>kc. (fst kc, eraseRequired (snd kc))) (subcommands c)"
  "primaryArg (eraseRequired c) = map_option (\<lambda>pa. pa\<lparr>prequired := False\<rparr>) (primaryArg c)"
  by (cases c, simp)+

lemma eraseArg_base [simp]: "base (eraseArg a) = (base a)\<lparr>required := False\<rparr>"
  by (cases a) simp_all

lemma eraseArg_names [simp]:
  "ArgName (eraseArg a) = ArgName a"
  "ShortName (eraseArg a) = ShortName a"
  "GetDefaultValue (eraseArg a) = GetDefaultValue a"
  by (simp_all add: ArgName_def ShortName_def GetDefaultValue_def)

lemma eraseArg_checkValue [simp]: "checkValue lib (eraseArg a) v = checkValue lib a v"
  by (cases a) (simp_all split: sum.splits)

lemma eraseState_fields [simp]:
  "commandStack (eraseState ap) = map eraseRequired (commandStack ap)"
  "semanticStack (eraseState ap) = semanticStack ap"
  "heap (eraseState ap) = heap ap"
  "events (eraseState ap) = events ap"
  "allowSubcommands (eraseState ap) = allowSubcommands ap"
  "result (eraseState ap) = result ap"
  "initialCommand (eraseState ap) = eraseRequired (initialCommand ap)"
  by (simp_all add: eraseState_def)

lemma eraseState_updates [simp]:
  "eraseState (ap\<lparr>allowSubcommands := b\<rparr>) = (eraseState ap)\<lparr>allowSubcommands := b\<rparr>"
  "eraseState (ap\<lparr>heap := h\<rparr>) = (eraseState ap)\<lparr>heap := h\<rparr>"
  "eraseState (ap\<lparr>events := e\<rparr>) = (eraseState ap)\<lparr>events := e\<rparr>"
  by (simp_all add: eraseState_def)

lemma eraseState_push:
  "eraseState (ap\<lparr>commandStack := cs, heap := h, semanticStack := ss\<rparr>)
     = (eraseState ap)\<lparr>commandStack := map eraseRequired cs, heap := h, semanticStack := ss\<rparr>"
  by (simp add: eraseState_def)

lemma searchStack_erase:
  assumes "n \<le> length cs" and "\<And>c. map_of (tbl (eraseRequired c)) nm = map_option g (map_of (tbl c) nm)"
  shows "searchStack tbl (map eraseRequired cs) n nm
       = map_option (\<lambda>p. (fst p, g (snd p))) (searchStack tbl cs n nm)"
  using assms(1) by (induction n) (auto simp: assms(2) split: option.splits)

lemma searchStack_erase_flags:
  "searchStack flags (map eraseRequired cs) (length cs) nm = searchStack flags cs (length cs) nm"
  "searchStack flagsByShortName (map eraseRequired cs) (length cs) nm = searchStack flagsByShortName cs (length cs) nm"
  using searchStack_erase [of "length cs" cs flags nm id] searchStack_erase [of "length cs" cs flagsByShortName nm id]
  by (simp_all add: option.map_id0 option.map_ident)

lemma searchStack_erase_args:
  "searchStack args (map eraseRequired cs) (length cs) nm
     = map_option (\<lambda>p. (fst p, eraseArg (snd p))) (searchStack args cs (length cs) nm)"
  "searchStack argsByShortName (map eraseRequired cs) (length cs) nm
     = map_option (\<lambda>p. (fst p, eraseArg (snd p))) (searchStack argsByShortName cs (length cs) nm)"
  using searchStack_erase [of "length cs" cs args nm eraseArg]
    searchStack_erase [of "length cs" cs argsByShortName nm eraseArg]
  by (simp_all add: map_of_map_snd)

lemma setFlag_erase: "setFlag (eraseState ap) i f = (fst (setFlag ap i f), eraseState (snd (setFlag ap i f)))"
  by (simp add: setFlag_eq Let_def)

lemma setArg_erase:
  "setArg lib (eraseState ap) i (eraseArg a) v = (fst (setArg lib ap i a v), eraseState (snd (setArg lib ap i a v)))"
  by (simp add: setArg_eq Let_def split: sum.splits)

lemma curr_erase:
  assumes "commandStack ap \<noteq> []"
  shows "currCommand (eraseState ap) = eraseRequired (currCommand ap)"
    and "currAddr (eraseState ap) = currAddr ap"
    and "currResult (eraseState ap) = currResult ap"
  using assms by (simp_all add: currCommand_def currAddr_def currResult_def)

lemma consume_erase:
  assumes "commandStack ap \<noteq> []"
  shows "consume lib (eraseState ap) tok = (fst (consume lib ap tok), eraseState (snd (consume lib ap tok)))"
proof (cases "HasPrefix tok ''-''")
  case True
  note e = extractComponents_token [of tok]
  let ?ap = "ap\<lparr>allowSubcommands := False\<rparr>"
  have f: "setFlag ((eraseState ap)\<lparr>allowSubcommands := False\<rparr>) i f
             = (fst (setFlag ?ap i f), eraseState (snd (setFlag ?ap i f)))" for i f
    using setFlag_erase [of ?ap i f] by simp
  have a: "setArg lib ((eraseState ap)\<lparr>allowSubcommands := False\<rparr>) i (eraseArg a) v
             = (fst (setArg lib ?ap i a v), eraseState (snd (setArg lib ?ap i a v)))" for i a v
    using setArg_erase [of lib ?ap i a v] by simp
  show ?thesis
  proof (cases "tokenValue tok = []")
    case v: True
    show ?thesis
    proof (cases "HasPrefix tok ''--''")
      case True
      with v show ?thesis
        by (cases "searchStack flags (commandStack ap) (length (commandStack ap)) (tokenName tok)")
           (auto simp: consume_dashed [OF \<open>HasPrefix tok ''-''\<close> e] Let_def searchStack_erase_flags f)
    next
      case False
      with v show ?thesis
        by (cases "searchStack flagsByShortName (commandStack ap) (length (commandStack ap)) (tokenName tok)")
           (auto simp: consume_dashed [OF \<open>HasPrefix tok ''-''\<close> e] Let_def searchStack_erase_flags f)
    qed
  next
    case v: False
    show ?thesis
    proof (cases "HasPrefix tok ''--''")
      case True
      with v show ?thesis
        by (cases "searchStack args (commandStack ap) (length (commandStack ap)) (tokenName tok)")
           (auto simp: consume_dashed [OF \<open>HasPrefix tok ''-''\<close> e] Let_def searchStack_erase_args a)
    next
      case False
      with v show ?thesis
        by (cases "searchStack argsByShortName (commandStack ap) (length (commandStack ap)) (tokenName tok)")
           (auto simp: consume_dashed [OF \<open>HasPrefix tok ''-''\<close> e] Let_def searchStack_erase_args a)
    qed
  qed
next
  case False
  note c = curr_erase [OF assms]
  show ?thesis
  proof (cases "primaryArg (currCommand ap) \<noteq> None")
    case True
    then show ?thesis
      by (simp add: consume_bare [OF False] Let_def c)
  next
    case np: False
    show ?thesis
    proof (cases "map_of (subcommands (currCommand ap)) tok")
      case None
      with np show ?thesis
        by (simp add: consume_bare [OF False] Let_def c map_of_map_snd)
    next
      case (Some subc)
      with np show ?thesis
        by (simp add: consume_bare [OF False] Let_def c map_of_map_snd eraseState_push)
    qed
  qed
qed


lemma consumeAll_erase:
  assumes "commandStack ap \<noteq> []"
  shows "consumeAll lib (eraseState ap) ts = (fst (consumeAll lib ap ts), eraseState (snd (consumeAll lib ap ts)))"
  using assms
proof (induction ts arbitrary: ap)
  case Nil
  then show ?case by simp
next
  case (Cons t ts)
  obtain e ap1 where c: "consume lib ap t = (e, ap1)" by (cases "consume lib ap t")
  have "commandStack ap1 \<noteq> []"
    using consume_stack_grows [of ap lib t] c Cons.prems by auto
  with Cons.IH [of ap1] c consume_erase [OF Cons.prems, of lib t] show ?case
    by (cases e) simp_all
qed

lemma fillArgs_erase: "fillArgs (map (\<lambda>ka. (fst ka, eraseArg (snd ka))) as) r = fillArgs as r"
  by (induction as arbitrary: r) (auto simp: GetDefaultValue_def)

lemma fillDefaults_erase:
  "n \<le> length (commandStack ap) \<Longrightarrow> fillDefaults (eraseState ap) n = eraseState (fillDefaults ap n)"
proof (induction n arbitrary: ap)
  case 0
  then show ?case by simp
next
  case (Suc n)
  let ?ap = "ap\<lparr>heap := (heap ap)[semanticStack ap ! n := fillArgs (args (commandStack ap ! n)) (heap ap ! (semanticStack ap ! n))]\<rparr>"
  have "n \<le> length (commandStack ?ap)" using Suc.prems by simp
  from Suc.IH [OF this] Suc.prems show ?case
    by (simp add: Let_def fillArgs_erase)
qed

lemma startParse_erase: "startParse (newParser (eraseRequired cli)) = eraseState (startParse (newParser cli))"
  by (simp add: startParse_def newParser_def eraseState_def Let_def)

lemma consumeAll_nonempty:
  "commandStack ap \<noteq> [] \<Longrightarrow> commandStack (snd (consumeAll lib ap ts)) \<noteq> []"
proof (induction ts arbitrary: ap)
  case Nil
  then show ?case by simp
next
  case (Cons t ts)
  obtain e ap1 where c: "consume lib ap t = (e, ap1)" by (cases "consume lib ap t")
  have "commandStack ap1 \<noteq> []"
    using consume_stack_grows [of ap lib t] c Cons.prems by auto
  with Cons.IH [of ap1] c show ?case by (cases e) simp_all
qed

lemma parse_erase:
  "parse lib (newParser (eraseRequired cli)) ts
     = (fst (parse lib (newParser cli) ts), eraseState (snd (parse lib (newParser cli) ts)))"
proof -
  let ?s = "startParse (newParser cli)"
  have ne: "commandStack ?s \<noteq> []" by (simp add: startParse_def Let_def)
  obtain e ap where c: "consumeAll lib ?s ts = (e, ap)" by (cases "consumeAll lib ?s ts")
  have ne': "commandStack ap \<noteq> []" using consumeAll_nonempty [OF ne, of lib ts] c by simp
  have c': "consumeAll lib (eraseState ?s) ts = (e, eraseState ap)"
    using consumeAll_erase [OF ne, of lib ts] c by simp
  show ?thesis
    using ne' by (cases e) (simp_all add: parse_def startParse_erase c c' curr_erase fillDefaults_erase)
qed

text \<open>What the pass over the defaults does to one result.\<close>

lemma fillArgs_fields_conj:
  "rflags (fillArgs as r) = rflags r \<and> subcommandName (fillArgs as r) = subcommandName r
   \<and> subcommandRes (fillArgs as r) = subcommandRes r \<and> rprimaryArg (fillArgs as r) = rprimaryArg r"
proof (induction as arbitrary: r)
  case Nil
  then show ?case by simp
next
  case (Cons p as)
  obtain k a where p: "p = (k, a)" by (cases p)
  show ?case
    by (cases "defaultValue (base a) \<noteq> NilV \<and> Arguments r (ArgName a) = None")
       (simp_all add: p GetDefaultValue_def Cons.IH)
qed

lemma fillArgs_fields [simp]:
  "rflags (fillArgs as r) = rflags r"
  "subcommandName (fillArgs as r) = subcommandName r"
  "subcommandRes (fillArgs as r) = subcommandRes r"
  "rprimaryArg (fillArgs as r) = rprimaryArg r"
  using fillArgs_fields_conj [of as r] by simp_all

lemma fillArgs_Some: "Arguments r n = Some x \<Longrightarrow> Arguments (fillArgs as r) n = Some x"
proof (induction as arbitrary: r)
  case Nil
  then show ?case by simp
next
  case (Cons p as)
  obtain k a where p: "p = (k, a)" by (cases p)
  let ?r = "if defaultValue (base a) \<noteq> NilV \<and> Arguments r (ArgName a) = None
            then r\<lparr>Arguments := (Arguments r)(ArgName a \<mapsto> defaultValue (base a))\<rparr> else r"
  have "Arguments ?r n = Some x" using Cons.prems by auto
  from Cons.IH [OF this] show ?case by (simp add: p GetDefaultValue_def)
qed

lemma fillArgs_None:
  "Arguments r n = None \<Longrightarrow> \<forall>ka\<in>set as. ArgName (snd ka) = n \<longrightarrow> defaultValue (base (snd ka)) = NilV \<Longrightarrow>
     Arguments (fillArgs as r) n = None"
  by (induction as arbitrary: r) (auto simp: GetDefaultValue_def)

lemma fillArgs_default:
  assumes "distinct (map (\<lambda>ka. ArgName (snd ka)) as)" and "(k, a) \<in> set as"
    and "defaultValue (base a) \<noteq> NilV" and "Arguments r (ArgName a) = None"
  shows "Arguments (fillArgs as r) (ArgName a) = Some (defaultValue (base a))"
  using assms
proof (induction as arbitrary: r)
  case Nil
  then show ?case by simp
next
  case (Cons p as)
  obtain k' a' where p: "p = (k', a')" by (cases p)
  show ?case
  proof (cases "a' = a")
    case True
    with Cons.prems p show ?thesis
      by (simp add: GetDefaultValue_def fillArgs_Some)
  next
    case False
    with Cons.prems p have "(k, a) \<in> set as" and "ArgName a' \<noteq> ArgName a"
      by (auto simp: image_iff)
    with Cons.IH [of "if defaultValue (base a') \<noteq> NilV \<and> Arguments r (ArgName a') = None
                      then r\<lparr>Arguments := (Arguments r)(ArgName a' \<mapsto> defaultValue (base a'))\<rparr> else r"]
      Cons.prems p show ?thesis
      by (simp add: GetDefaultValue_def)
  qed
qed

lemma fillDefaults_frame_conj:
  "commandStack (fillDefaults ap n) = commandStack ap \<and> semanticStack (fillDefaults ap n) = semanticStack ap
   \<and> events (fillDefaults ap n) = events ap \<and> length (heap (fillDefaults ap n)) = length (heap ap)"
  by (induction n arbitrary: ap) (simp_all add: Let_def)

lemma fillDefaults_frame [simp]:
  "commandStack (fillDefaults ap n) = commandStack ap"
  "semanticStack (fillDefaults ap n) = semanticStack ap"
  "events (fillDefaults ap n) = events ap"
  "length (heap (fillDefaults ap n)) = length (heap ap)"
  using fillDefaults_frame_conj [of ap n] by simp_all

lemma fillDefaults_heap:
  assumes "linked ap" and "n \<le> length (heap ap)" and "i < length (heap ap)"
  shows "heap (fillDefaults ap n) ! i
       = (if i < n then fillArgs (args (commandStack ap ! i)) (heap ap ! i) else heap ap ! i)"
  using assms
proof (induction n arbitrary: ap)
  case 0
  then show ?case by simp
next
  case (Suc n)
  let ?ap = "ap\<lparr>heap := (heap ap)[semanticStack ap ! n := fillArgs (args (commandStack ap ! n)) (heap ap ! (semanticStack ap ! n))]\<rparr>"
  have sn: "semanticStack ap ! n = n" using Suc.prems by (simp add: linked_def)
  have l: "linked ?ap"
    using Suc.prems(1) by (rule linked_heap_update) simp_all
  have "heap (fillDefaults ?ap n) ! i
       = (if i < n then fillArgs (args (commandStack ?ap ! i)) (heap ?ap ! i) else heap ?ap ! i)"
    using Suc.IH [OF l] Suc.prems by simp
  then show ?case
    using Suc.prems by (auto simp: Let_def sn nth_update_total less_Suc_eq)
qed

lemma parse_no_tokens:
  "parse lib (newParser cli) [] =
     (if subcommands cli \<noteq> [] \<and> RequiresSubcommand cli
      then (Inl (RequiresASubcommand (Name cli)), startParse (newParser cli))
      else (Inr (Some 0), fillDefaults (startParse (newParser cli)) (Suc 0)))"
  by (simp add: parse_def startParse_def newParser_def currCommand_def Let_def del: fillDefaults.simps)

lemma valid_child:
  assumes "valid c" and "map_of (subcommands c) s = Some c'"
  shows "valid c'" and "Name c' = s" and "primaryArg c = None"
proof -
  from assms(2) have m: "(s, c') \<in> set (subcommands c)" by (rule map_of_SomeD)
  then have ne: "subcommands c \<noteq> []" by auto
  from assms(1) m ne show "valid c'" and "Name c' = s" and "primaryArg c = None"
    by (cases c; fastforce)+
qed

lemma valid_arg_names:
  assumes "valid c"
  shows "distinct (map (\<lambda>ka. ArgName (snd ka)) (args c))"
proof -
  from assms have d: "distinct (map fst (args c))" and k: "\<forall>ka\<in>set (args c). ArgName (snd ka) = fst ka"
    by (cases c; simp)+
  from k have "map (\<lambda>ka. ArgName (snd ka)) (args c) = map fst (args c)" by (intro map_cong) simp_all
  with d show ?thesis by (simp only:)
qed

lemma walk_valid: "valid c \<Longrightarrow> walk c ss = Some path \<Longrightarrow> \<forall>x\<in>set path. valid x"
proof (induction ss arbitrary: c path)
  case Nil
  then show ?case by auto
next
  case (Cons s ss)
  from Cons.prems(2) obtain c' path' where m: "map_of (subcommands c) s = Some c'"
    and w: "walk c' ss = Some path'" and p: "path = c # path'"
    by (auto split: option.splits)
  from Cons.IH [OF valid_child(1) [OF Cons.prems(1) m] w] Cons.prems(1) p show ?case by simp
qed

lemma walk_length: "walk c ss = Some path \<Longrightarrow> length path = Suc (length ss)"
  by (induction ss arbitrary: c path) (auto split: option.splits)

lemma walk_hd: "walk c ss = Some path \<Longrightarrow> path ! 0 = c"
  by (cases ss) (auto split: option.splits)

lemma walk_snoc:
  "walk c (ss @ [s]) = Some path' \<longleftrightarrow>
     (\<exists>path c'. walk c ss = Some path \<and> map_of (subcommands (last path)) s = Some c' \<and> path' = path @ [c'])"
proof (induction ss arbitrary: c path')
  case Nil
  then show ?case by (auto split: option.splits)
next
  case (Cons x ss)
  show ?case
  proof (cases "map_of (subcommands c) x")
    case None
    then show ?thesis by simp
  next
    case (Some d)
    have ne: "walk d ss = Some p \<Longrightarrow> p \<noteq> []" for p
      using walk_length [of d ss p] by auto
    show ?thesis
      using Some Cons.IH [of d] ne
      by (auto simp: last_ConsR)
  qed
qed

lemma linked_last: "linked ap \<Longrightarrow> currCommand ap = last (commandStack ap)"
  by (simp add: currCommand_def last_conv_nth linked_nonempty)

text \<open>The state after the subcommand names: one empty result for each command entered.\<close>

lemma consume_subcommands:
  assumes "valid cli" and "walk cli ss = Some path" and "\<forall>s\<in>set ss. bare s"
  shows "\<exists>ap. reached lib cli ss ap \<and> allowSubcommands ap \<and> commandStack ap = path \<and> events ap = []
            \<and> result ap = Some 0
            \<and> (\<forall>i<length path. rflags (heap ap ! i) = {} \<and> Arguments (heap ap ! i) = Map.empty)
            \<and> (\<forall>i. Suc i < length path \<longrightarrow> subcommandName (heap ap ! i) = ss ! i)"
  using assms(2,3)
proof (induction ss arbitrary: path rule: rev_induct)
  case Nil
  then have "path = [cli]" by simp
  then show ?case
    by (simp add: reached_def startParse_def newParser_def Let_def newResult_def)
next
  case (snoc s ss)
  from snoc.prems(1) obtain p c' where w: "walk cli ss = Some p"
    and m: "map_of (subcommands (last p)) s = Some c'" and path: "path = p @ [c']"
    by (auto simp: walk_snoc)
  from snoc.prems(2) have b: "\<forall>s\<in>set ss. bare s" and bs: "\<not> HasPrefix s ''-''" by (simp_all add: bare_def)
  from snoc.IH [OF w b] obtain ap where r: "reached lib cli ss ap" and a: "allowSubcommands ap"
    and cs: "commandStack ap = p" and ev: "events ap = []" and res: "result ap = Some 0"
    and em: "\<forall>i<length p. rflags (heap ap ! i) = {} \<and> Arguments (heap ap ! i) = Map.empty"
    and nm: "\<forall>i. Suc i < length p \<longrightarrow> subcommandName (heap ap ! i) = ss ! i"
    by blast
  have l: "linked ap" using r by (rule reached_linked)
  have lp: "length p = Suc (length ss)" using w by (rule walk_length)
  have hl: "length (heap ap) = Suc (length ss)" using l cs lp by (simp add: linked_def)
  have cur: "currCommand ap = last p" using l cs by (simp add: linked_last)
  have ca: "currAddr ap = length ss" using l hl by (simp add: linked_currAddr)
  have v: "valid (last p)"
    using walk_valid [OF assms(1) w] lp by (cases p rule: rev_cases) auto
  note vc = valid_child [OF v m]
  let ?ap = "ap\<lparr>commandStack := commandStack ap @ [c'],
                 heap := (heap ap @ [newResult])[currAddr ap := ((heap ap @ [newResult]) ! currAddr ap)\<lparr>subcommandRes := Some (length (heap ap)),
                                                   subcommandName := Name c'\<rparr>],
                 semanticStack := semanticStack ap @ [length (heap ap)]\<rparr>"
  have c: "consume lib ap s = (None, ?ap)"
    using a m vc(3) by (simp add: consume_bare [OF bs] cur)
  have "reached lib cli (ss @ [s]) ?ap" using r c by (auto simp: reached_snoc)
  moreover have "allowSubcommands ?ap" "commandStack ?ap = path" "events ?ap = []" "result ?ap = Some 0"
    using a cs ev res path by simp_all
  moreover have "\<forall>i<length path. rflags (heap ?ap ! i) = {} \<and> Arguments (heap ?ap ! i) = Map.empty"
    using em by (auto simp: path lp hl ca nth_update_total nth_append newResult_def less_Suc_eq)
  moreover have "\<forall>i. Suc i < length path \<longrightarrow> subcommandName (heap ?ap ! i) = (ss @ [s]) ! i"
    using nm vc(2) by (auto simp: path lp hl ca nth_update_total nth_append less_Suc_eq)
  ultimately show ?case by blast
qed

lemma innermost_unique:
  "innermost tbl cs nm i x \<Longrightarrow> innermost tbl cs nm j y \<Longrightarrow> i = j \<and> x = y"
  by (drule innermost_search)+ simp

lemma flagToken_unique: "flagToken cs t i f \<Longrightarrow> flagToken cs t j g \<Longrightarrow> i = j \<and> f = g"
  by (auto simp: flagToken_def dest: innermost_unique)

lemma argToken_unique: "argToken cs t i a \<Longrightarrow> argToken cs t j b \<Longrightarrow> i = j \<and> a = b"
  by (auto simp: argToken_def dest: innermost_unique)

lemma flag_not_arg: "flagToken cs t i f \<Longrightarrow> argToken cs t j a \<Longrightarrow> False"
  by (simp add: flagToken_def argToken_def)

lemma scopeResult_linked: "linked ap \<Longrightarrow> j < length (commandStack ap) \<Longrightarrow> scopeResult ap j = heap ap ! j"
  by (simp add: scopeResult_def linked_addr)

lemma consume_flag_ok:
  assumes l: "linked ap" and t: "flagToken (commandStack ap) t i f" and n: "name f \<notin> rflags (scopeResult ap i)"
  shows "\<exists>ap1. consume lib ap t = (if endsProcess f then Some ProcessExit else None, ap1)
          \<and> linked ap1 \<and> commandStack ap1 = commandStack ap
          \<and> result ap1 = result ap
          \<and> (\<forall>j<length (commandStack ap).
                rflags (scopeResult ap1 j) = (if j = i then insert (name f) (rflags (scopeResult ap j))
                                             else rflags (scopeResult ap j))
              \<and> Arguments (scopeResult ap1 j) = Arguments (scopeResult ap j))"
proof -
  let ?ap = "ap\<lparr>allowSubcommands := False\<rparr>"
  have c: "consume lib ap t = setFlag ?ap i f" using t by (rule consume_flagToken)
  have i: "i < length (commandStack ap)" using t by (rule flagToken_level)
  have s: "fst (setFlag ?ap i f) = (if endsProcess f then Some ProcessExit else None)"
    using n by (simp add: setFlag_eq Let_def scopeResult_def)
  have l1: "linked (snd (setFlag ?ap i f))" using l by (simp add: setFlag_linked)
  have "rflags (scopeResult (snd (setFlag ?ap i f)) j) = (if j = i then insert (name f) (rflags (scopeResult ap j))
                                             else rflags (scopeResult ap j))"
    if "j < length (commandStack ap)" for j
    using l i that n by (auto simp: setFlag_eq Let_def scopeResult_def linked_def nth_update_total)
  moreover have "consume lib ap t = (if endsProcess f then Some ProcessExit else None, snd (setFlag ?ap i f))"
    using s c by (metis prod.collapse)
  ultimately show ?thesis
    using l1 by (intro exI [of _ "snd (setFlag ?ap i f)"]) simp
qed

lemma consume_arg_ok:
  assumes l: "linked ap" and t: "argToken (commandStack ap) t i a"
    and n: "Arguments (scopeResult ap i) (ArgName a) = None"
    and x: "snd (checkValue lib a (tokenValue t)) = Inr x"
  shows "\<exists>ap1. consume lib ap t = (None, ap1) \<and> linked ap1 \<and> commandStack ap1 = commandStack ap
          \<and> result ap1 = result ap
          \<and> (\<forall>j<length (commandStack ap).
                rflags (scopeResult ap1 j) = rflags (scopeResult ap j)
              \<and> Arguments (scopeResult ap1 j) = (if j = i then (Arguments (scopeResult ap j))(ArgName a \<mapsto> x)
                                                else Arguments (scopeResult ap j)))"
proof -
  let ?ap = "ap\<lparr>allowSubcommands := False\<rparr>"
  let ?r = "setArg lib ?ap i a (tokenValue t)"
  have c: "consume lib ap t = ?r" using t by (rule consume_argToken)
  have i: "i < length (commandStack ap)" using t by (rule argToken_level)
  have s: "fst ?r = None" using n x by (simp add: setArg_eq Let_def scopeResult_def)
  have l1: "linked (snd ?r)" using l by (simp add: setArg_linked)
  have "Arguments (scopeResult (snd ?r) j) = (if j = i then (Arguments (scopeResult ap j))(ArgName a \<mapsto> x)
                                                else Arguments (scopeResult ap j))"
    if "j < length (commandStack ap)" for j
    using l i that n x by (auto simp: setArg_eq Let_def scopeResult_def linked_def nth_update_total)
  moreover have "consume lib ap t = (None, snd ?r)"
    using s c by (metis prod.collapse)
  ultimately show ?thesis
    using l1 by (intro exI [of _ "snd ?r"]) simp
qed


lemma legalToken_dashed: "legalToken lib cs t \<Longrightarrow> HasPrefix t ''-''"
  by (auto simp: legalToken_def flagToken_def argToken_def)

lemma consumeAll_dashed_names:
  assumes "\<forall>t\<in>set ds. HasPrefix t ''-''"
  shows "subcommandName (heap (snd (consumeAll lib ap ds)) ! a) = subcommandName (heap ap ! a)"
  using assms
proof (induction ds arbitrary: ap)
  case Nil
  then show ?case by simp
next
  case (Cons t ds)
  then have t: "HasPrefix t ''-''" and ds: "\<forall>t\<in>set ds. HasPrefix t ''-''" by simp_all
  obtain e ap1 where c: "consume lib ap t = (e, ap1)" by (cases "consume lib ap t")
  have f: "subcommandName (heap ap1 ! a) = subcommandName (heap ap ! a)"
    using consume_dashed_frame(7) [OF t, of lib ap a] c by simp
  show ?case
    using c f Cons.IH [OF ds, of ap1] by (cases e) simp_all
qed

text \<open>
  Legal tokens with no repeated target, none of them set yet, and with no callback
  that ends the process, are all consumed; afterwards each flag named is marked and
  each argument has its value, in the result of the level it resolves to, and no
  other flag and no other argument changed.
\<close>

lemma consume_legal_tokens:
  assumes "linked ap" and "commandStack ap = cs"
    and "\<forall>t\<in>set toks. legalToken lib cs t" and "noRepeat cs toks"
    and "\<forall>t\<in>set toks. \<forall>i f. flagToken cs t i f \<longrightarrow> name f \<notin> rflags (scopeResult ap i)"
    and "\<forall>t\<in>set toks. \<forall>i a. argToken cs t i a \<longrightarrow> Arguments (scopeResult ap i) (ArgName a) = None"
    and "\<forall>t\<in>set toks. \<forall>i f. flagToken cs t i f \<longrightarrow> \<not> endsProcess f"
  shows "\<exists>ap'. consumeAll lib ap toks = (None, ap') \<and> linked ap' \<and> commandStack ap' = cs
          \<and> result ap' = result ap
          \<and> (\<forall>t\<in>set toks. \<forall>i f. flagToken cs t i f \<longrightarrow> name f \<in> rflags (scopeResult ap' i))
          \<and> (\<forall>t\<in>set toks. \<forall>i a x. argToken cs t i a \<and> snd (checkValue lib a (tokenValue t)) = Inr x
                 \<longrightarrow> Arguments (scopeResult ap' i) (ArgName a) = Some x)
          \<and> (\<forall>i<length cs. \<forall>n. (\<forall>t\<in>set toks. \<forall>a. argToken cs t i a \<longrightarrow> ArgName a \<noteq> n)
                 \<longrightarrow> Arguments (scopeResult ap' i) n = Arguments (scopeResult ap i) n)
          \<and> (\<forall>i<length cs. \<forall>n. (\<forall>t\<in>set toks. \<forall>f. flagToken cs t i f \<longrightarrow> name f \<noteq> n)
                 \<longrightarrow> (n \<in> rflags (scopeResult ap' i)) = (n \<in> rflags (scopeResult ap i)))"
  using assms
proof (induction toks arbitrary: ap)
  case Nil
  then show ?case by simp
next
  case (Cons t toks)
  note l = Cons.prems(1) and cs = Cons.prems(2)
  from Cons.prems(3) have lt: "legalToken lib cs t" and ltoks: "\<forall>t\<in>set toks. legalToken lib cs t" by simp_all
  from Cons.prems(4) have nt: "\<forall>t'\<in>set toks. \<not> sameTarget cs t t'" and nr: "noRepeat cs toks" by simp_all
  from Cons.prems(7) have ne: "\<forall>t\<in>set toks. \<forall>i f. flagToken cs t i f \<longrightarrow> \<not> endsProcess f" by simp
  from lt consider (flag) i f where "flagToken cs t i f"
    | (arg) i a x where "argToken cs t i a" "snd (checkValue lib a (tokenValue t)) = Inr x"
    by (auto simp: legalToken_def)
  then show ?case
  proof cases
    case flag
    have i: "i < length cs" using flag by (rule flagToken_level)
    have n: "name f \<notin> rflags (scopeResult ap i)" using Cons.prems(5) flag by simp
    have "\<not> endsProcess f" using Cons.prems(7) flag by simp
    with consume_flag_ok [OF l flag [folded cs] n, of lib] obtain ap1 where
      c: "consume lib ap t = (None, ap1)" and l1: "linked ap1" and cs1: "commandStack ap1 = cs"
      and r1: "result ap1 = result ap"
      and h1: "\<forall>j<length cs. rflags (scopeResult ap1 j)
                  = (if j = i then insert (name f) (rflags (scopeResult ap j)) else rflags (scopeResult ap j))
                \<and> Arguments (scopeResult ap1 j) = Arguments (scopeResult ap j)"
      by (auto simp: cs)
    have p5: "\<forall>t'\<in>set toks. \<forall>i' f'. flagToken cs t' i' f' \<longrightarrow> name f' \<notin> rflags (scopeResult ap1 i')"
    proof (intro ballI allI impI)
      fix t' i' f' assume t': "t' \<in> set toks" and ft: "flagToken cs t' i' f'"
      have i': "i' < length cs" using ft by (rule flagToken_level)
      have a: "name f' \<notin> rflags (scopeResult ap i')" using Cons.prems(5) t' ft by simp
      have "\<not> (i' = i \<and> name f' = name f)"
      proof
        assume "i' = i \<and> name f' = name f"
        then have "i' = i" "name f = name f'" by simp_all
        with flag ft have "sameTarget cs t t'" unfolding sameTarget_def by blast
        with nt t' show False by simp
      qed
      with a h1 i' show "name f' \<notin> rflags (scopeResult ap1 i')" by auto
    qed
    have p6: "\<forall>t'\<in>set toks. \<forall>i' a'. argToken cs t' i' a' \<longrightarrow> Arguments (scopeResult ap1 i') (ArgName a') = None"
    proof (intro ballI allI impI)
      fix t' i' a' assume t': "t' \<in> set toks" and at: "argToken cs t' i' a'"
      have i': "i' < length cs" using at by (rule argToken_level)
      with h1 Cons.prems(6) t' at show "Arguments (scopeResult ap1 i') (ArgName a') = None" by simp
    qed
    from Cons.IH [OF l1 cs1 ltoks nr p5 p6 ne] obtain ap' where
      c': "consumeAll lib ap1 toks = (None, ap')" and l': "linked ap'" and cs': "commandStack ap' = cs"
      and r': "result ap' = result ap1"
      and F: "\<forall>t\<in>set toks. \<forall>i f. flagToken cs t i f \<longrightarrow> name f \<in> rflags (scopeResult ap' i)"
      and A: "\<forall>t\<in>set toks. \<forall>i a x. argToken cs t i a \<and> snd (checkValue lib a (tokenValue t)) = Inr x
                 \<longrightarrow> Arguments (scopeResult ap' i) (ArgName a) = Some x"
      and U: "\<forall>i<length cs. \<forall>n. (\<forall>t\<in>set toks. \<forall>a. argToken cs t i a \<longrightarrow> ArgName a \<noteq> n)
                 \<longrightarrow> Arguments (scopeResult ap' i) n = Arguments (scopeResult ap1 i) n"
      and V: "\<forall>i<length cs. \<forall>n. (\<forall>t\<in>set toks. \<forall>f. flagToken cs t i f \<longrightarrow> name f \<noteq> n)
                 \<longrightarrow> (n \<in> rflags (scopeResult ap' i)) = (n \<in> rflags (scopeResult ap1 i))"
      by blast
    have m: "rflags (scopeResult ap1 i) \<subseteq> rflags (scopeResult ap' i)"
      using consumeAll_mono [where ap = ap1 and i = i and lib = lib and ts = toks] l1 cs1 i c' by simp
    have own: "name f \<in> rflags (scopeResult ap' i)" using m h1 i by auto
    have R1: "consumeAll lib ap (t # toks) = (None, ap')" using c c' by simp
    have R2: "\<forall>t'\<in>set (t # toks). \<forall>i f. flagToken cs t' i f \<longrightarrow> name f \<in> rflags (scopeResult ap' i)"
      using F own flagToken_unique [OF flag] by auto
    have R3: "\<forall>t'\<in>set (t # toks). \<forall>i a x. argToken cs t' i a \<and> snd (checkValue lib a (tokenValue t')) = Inr x
                 \<longrightarrow> Arguments (scopeResult ap' i) (ArgName a) = Some x"
      using A flag_not_arg [OF flag] by auto
    have R4: "\<forall>i<length cs. \<forall>n. (\<forall>t'\<in>set (t # toks). \<forall>a. argToken cs t' i a \<longrightarrow> ArgName a \<noteq> n)
                 \<longrightarrow> Arguments (scopeResult ap' i) n = Arguments (scopeResult ap i) n"
      using U h1 by simp
    have R5: "result ap' = result ap" using r' r1 by simp
    have R6: "\<forall>i<length cs. \<forall>n. (\<forall>t'\<in>set (t # toks). \<forall>f. flagToken cs t' i f \<longrightarrow> name f \<noteq> n)
                 \<longrightarrow> (n \<in> rflags (scopeResult ap' i)) = (n \<in> rflags (scopeResult ap i))"
      using V h1 flag by auto
    show ?thesis
      by (intro exI [of _ ap'] conjI) (fact R1 l' cs' R5 R2 R3 R4 R6)+
  next
    case arg
    have i: "i < length cs" using arg(1) by (rule argToken_level)
    have n: "Arguments (scopeResult ap i) (ArgName a) = None" using Cons.prems(6) arg(1) by simp
    from consume_arg_ok [OF l arg(1) [folded cs] n arg(2)] obtain ap1 where
      c: "consume lib ap t = (None, ap1)" and l1: "linked ap1" and cs1: "commandStack ap1 = cs"
      and r1: "result ap1 = result ap"
      and h1: "\<forall>j<length cs. rflags (scopeResult ap1 j) = rflags (scopeResult ap j)
                \<and> Arguments (scopeResult ap1 j)
                  = (if j = i then (Arguments (scopeResult ap j))(ArgName a \<mapsto> x) else Arguments (scopeResult ap j))"
      by (auto simp: cs)
    have p5: "\<forall>t'\<in>set toks. \<forall>i' f'. flagToken cs t' i' f' \<longrightarrow> name f' \<notin> rflags (scopeResult ap1 i')"
    proof (intro ballI allI impI)
      fix t' i' f' assume t': "t' \<in> set toks" and ft: "flagToken cs t' i' f'"
      have i': "i' < length cs" using ft by (rule flagToken_level)
      with h1 Cons.prems(5) t' ft show "name f' \<notin> rflags (scopeResult ap1 i')" by simp
    qed
    have p6: "\<forall>t'\<in>set toks. \<forall>i' a'. argToken cs t' i' a' \<longrightarrow> Arguments (scopeResult ap1 i') (ArgName a') = None"
    proof (intro ballI allI impI)
      fix t' i' a' assume t': "t' \<in> set toks" and at: "argToken cs t' i' a'"
      have i': "i' < length cs" using at by (rule argToken_level)
      have b: "Arguments (scopeResult ap i') (ArgName a') = None" using Cons.prems(6) t' at by simp
      have "\<not> (i' = i \<and> ArgName a' = ArgName a)"
      proof
        assume "i' = i \<and> ArgName a' = ArgName a"
        then have "i' = i" "ArgName a = ArgName a'" by simp_all
        with arg(1) at have "sameTarget cs t t'" unfolding sameTarget_def by blast
        with nt t' show False by simp
      qed
      with b h1 i' show "Arguments (scopeResult ap1 i') (ArgName a') = None" by auto
    qed
    from Cons.IH [OF l1 cs1 ltoks nr p5 p6 ne] obtain ap' where
      c': "consumeAll lib ap1 toks = (None, ap')" and l': "linked ap'" and cs': "commandStack ap' = cs"
      and r': "result ap' = result ap1"
      and F: "\<forall>t\<in>set toks. \<forall>i f. flagToken cs t i f \<longrightarrow> name f \<in> rflags (scopeResult ap' i)"
      and A: "\<forall>t\<in>set toks. \<forall>i a x. argToken cs t i a \<and> snd (checkValue lib a (tokenValue t)) = Inr x
                 \<longrightarrow> Arguments (scopeResult ap' i) (ArgName a) = Some x"
      and U: "\<forall>i<length cs. \<forall>n. (\<forall>t\<in>set toks. \<forall>a. argToken cs t i a \<longrightarrow> ArgName a \<noteq> n)
                 \<longrightarrow> Arguments (scopeResult ap' i) n = Arguments (scopeResult ap1 i) n"
      and V: "\<forall>i<length cs. \<forall>n. (\<forall>t\<in>set toks. \<forall>f. flagToken cs t i f \<longrightarrow> name f \<noteq> n)
                 \<longrightarrow> (n \<in> rflags (scopeResult ap' i)) = (n \<in> rflags (scopeResult ap1 i))"
      by blast
    have "Arguments (scopeResult ap1 i) (ArgName a) = Some x" using h1 i by simp
    then have own: "Arguments (scopeResult ap' i) (ArgName a) = Some x"
      using consumeAll_mono [where ap = ap1 and i = i and lib = lib and n = "ArgName a" and x = x and ts = toks]
        l1 cs1 i c' by simp
    have R1: "consumeAll lib ap (t # toks) = (None, ap')" using c c' by simp
    have R2: "\<forall>t'\<in>set (t # toks). \<forall>i f. flagToken cs t' i f \<longrightarrow> name f \<in> rflags (scopeResult ap' i)"
      using F flag_not_arg [OF _ arg(1)] by auto
    have R3: "\<forall>t'\<in>set (t # toks). \<forall>i a x. argToken cs t' i a \<and> snd (checkValue lib a (tokenValue t')) = Inr x
                 \<longrightarrow> Arguments (scopeResult ap' i) (ArgName a) = Some x"
      using A own argToken_unique [OF arg(1)] arg(2) by auto
    have R4: "\<forall>i<length cs. \<forall>n. (\<forall>t'\<in>set (t # toks). \<forall>a. argToken cs t' i a \<longrightarrow> ArgName a \<noteq> n)
                 \<longrightarrow> Arguments (scopeResult ap' i) n = Arguments (scopeResult ap i) n"
      using U h1 arg(1) by auto
    have R5: "result ap' = result ap" using r' r1 by simp
    have R6: "\<forall>i<length cs. \<forall>n. (\<forall>t'\<in>set (t # toks). \<forall>f. flagToken cs t' i f \<longrightarrow> name f \<noteq> n)
                 \<longrightarrow> (n \<in> rflags (scopeResult ap' i)) = (n \<in> rflags (scopeResult ap i))"
      using V h1 by simp
    show ?thesis
      by (intro exI [of _ ap'] conjI) (fact R1 l' cs' R5 R2 R3 R4 R6)+
  qed
qed

lemma fillDefaults_linked: "linked ap \<Longrightarrow> linked (fillDefaults ap n)"
proof (induction n arbitrary: ap)
  case 0
  then show ?case by simp
next
  case (Suc n)
  let ?a = "semanticStack ap ! n"
  let ?ap = "ap\<lparr>heap := (heap ap)[?a := fillArgs (args (commandStack ap ! n)) (heap ap ! ?a)]\<rparr>"
  have "linked ?ap" using Suc.prems by (rule linked_heap_update) simp_all
  from Suc.IH [OF this] show ?case by (simp add: Let_def)
qed

lemma flags_differ:
  "flagToken cs t i f \<Longrightarrow> flagToken cs t' j f' \<Longrightarrow> i \<noteq> j \<or> name f \<noteq> name f' \<Longrightarrow> \<not> sameTarget cs t t'"
  by (auto simp: sameTarget_def dest: flagToken_unique flag_not_arg)

lemma args_differ:
  "argToken cs t i a \<Longrightarrow> argToken cs t' j a' \<Longrightarrow> i \<noteq> j \<or> ArgName a \<noteq> ArgName a' \<Longrightarrow> \<not> sameTarget cs t t'"
  by (auto simp: sameTarget_def dest: argToken_unique flag_not_arg)

lemma flag_arg_differ:
  "flagToken cs t i f \<Longrightarrow> argToken cs t' j a \<Longrightarrow> \<not> sameTarget cs t t' \<and> \<not> sameTarget cs t' t"
  by (auto simp: sameTarget_def dest: flag_not_arg)

section \<open>The claims\<close>



text \<open>
  C8. A token that gives a selector argument a value outside its legal values fails
  the parse with the error of an unknown value, whatever follows the token, and the
  state it leaves has no event more than before: the validator was not called.
  A value among the legal ones is passed to the validator, if one is set, once, and
  the validator's error is the error of the parse. \<^verbatim>\<open>checkValue\<close> itself rejects
  every string outside the legal values without a call of the validator.
\<close>

theorem selector_value_checked_before_validator:
  assumes "HasPrefix tok ''-''" and "extractComponents tok = (nm, val)" and "val \<noteq> []"
    and "innermost (if HasPrefix tok ''--'' then args else argsByShortName) (commandStack ap) nm i
           (SelectorArgument ab pv validator)"
    and "Arguments (heap ap ! (semanticStack ap ! i)) (aname ab) = None"
  shows "(val \<notin> pv \<longrightarrow>
            consumeAll lib ap (tok # rest)
              = (Some (NotAValidValue val (aname ab)), ap\<lparr>allowSubcommands := False\<rparr>))
       \<and> (val \<in> pv \<longrightarrow> (\<forall>f. validator = Some f \<longrightarrow>
            events (snd (consume lib ap tok)) = events ap @ [ValidatorRun (aname ab) (StringV val)]
          \<and> fst (consume lib ap tok) = map_option ValidatorError (f val)))
       \<and> (raw \<notin> pv \<longrightarrow>
            checkValue lib (SelectorArgument ab pv validator) raw
              = ([], Inl (NotAValidValue raw (aname ab))))"
proof -
  let ?sel = "SelectorArgument ab pv validator"
  let ?ap = "ap\<lparr>allowSubcommands := False\<rparr>"
  have c: "consume lib ap tok = setArg lib ?ap i ?sel val"
  proof (cases "HasPrefix tok ''--''")
    case True
    with assms(4) have "searchStack args (commandStack ap) (length (commandStack ap)) nm = Some (i, ?sel)"
      by (simp add: innermost_search)
    with True assms(3) show ?thesis
      by (simp add: consume_dashed [OF assms(1,2)])
  next
    case False
    with assms(4) have "searchStack argsByShortName (commandStack ap) (length (commandStack ap)) nm = Some (i, ?sel)"
      by (simp add: innermost_search)
    with False assms(3) show ?thesis
      by (simp add: consume_dashed [OF assms(1,2)])
  qed
  have 1: "val \<notin> pv \<Longrightarrow> setArg lib ?ap i ?sel val = (Some (NotAValidValue val (aname ab)), ?ap)"
    using assms(5) by (simp add: setArg_eq ArgName_def)
  have 2: "val \<in> pv \<Longrightarrow> validator = Some f \<Longrightarrow>
      events (snd (setArg lib ?ap i ?sel val)) = events ap @ [ValidatorRun (aname ab) (StringV val)]
      \<and> fst (setArg lib ?ap i ?sel val) = map_option ValidatorError (f val)" for f
    using assms(5) by (auto simp: setArg_eq ArgName_def validate_def Let_def split: option.splits)
  show ?thesis
    using 1 2 by (simp add: c)
qed

text \<open>
  The example of the specification: \<^verbatim>\<open>--sel=val3\<close> fails before any validator
  runs; \<^verbatim>\<open>-se=badVal\<close> is a legal value that the validator rejects.
\<close>

theorem selector_value_checked_before_validator_witness:
  "consumeAll exampleLib (startParse (newParser validatorsCLI)) [''--sel=val3'', ''-i=2'']
     = (Some (NotAValidValue ''val3'' ''sel''),
        (startParse (newParser validatorsCLI))\<lparr>allowSubcommands := False\<rparr>)
   \<and> events (snd (consume exampleLib (startParse (newParser validatorsCLI)) ''-se=badVal''))
       = [ValidatorRun ''sel'' (StringV ''badVal'')]
   \<and> fst (consume exampleLib (startParse (newParser validatorsCLI)) ''-se=badVal'')
       = Some (ValidatorError ''bad val'')"
proof -
  let ?ap = "startParse (newParser validatorsCLI)"
  have cs: "commandStack ?ap = [validatorsCLI]" and ss: "semanticStack ?ap = [0]"
    and h: "heap ?ap = [newResult]" and ev: "events ?ap = []"
    by (simp_all add: startParse_def newParser_def)
  have e1: "extractComponents ''--sel=val3'' = (''sel'', ''val3'')"
    and e2: "extractComponents ''-se=badVal'' = (''se'', ''badVal'')"
    by (simp_all add: extractComponents_eq)
  have i1: "innermost (if HasPrefix ''--sel=val3'' ''--'' then args else argsByShortName)
              (commandStack ?ap) ''sel'' 0
              (SelectorArgument \<lparr>aname = ''sel'', ashortName = ''se'', adesc = [], required = False,
                               defaultValue = StringV ''val1''\<rparr>
              {''val1'', ''val2'', ''badVal''} (Some notBadVal))"
    unfolding cs by (simp add: innermost_def HasPrefix_def validatorsCLI_def selArg_def)
  have i2: "innermost (if HasPrefix ''-se=badVal'' ''--'' then args else argsByShortName)
              (commandStack ?ap) ''se'' 0
              (SelectorArgument \<lparr>aname = ''sel'', ashortName = ''se'', adesc = [], required = False,
                               defaultValue = StringV ''val1''\<rparr>
              {''val1'', ''val2'', ''badVal''} (Some notBadVal))"
    unfolding cs by (simp add: innermost_def HasPrefix_def validatorsCLI_def selArg_def)
  have n: "Arguments (heap ?ap ! (semanticStack ?ap ! 0)) ''sel'' = None"
    by (simp add: h ss newResult_def)
  show ?thesis
    using selector_value_checked_before_validator [OF _ e1 _ i1, where lib = exampleLib and rest = "[''-i=2'']"]
      selector_value_checked_before_validator [OF _ e2 _ i2, where lib = exampleLib] n
    by (simp add: HasPrefix_def ev notBadVal_def)
qed

text \<open>
  C5. In a state of a parse whose active command declares a primary argument, a
  bare token (one with no leading dash) is recorded as it is, with no validation and
  no callback, when nothing is recorded yet; nothing is recorded yet when no bare
  token was consumed in this scope (all the bare tokens so far were subcommands).
  When a value is recorded, a bare token fails the parse with the error of multiple
  primary arguments; dashed tokens in between change neither the recorded value nor
  the active command. \<^verbatim>\<open>PrimaryArg\<close> reports the recorded string, as present exactly
  when it is not empty.
\<close>

theorem primary_argument_recorded_once:
  assumes "reached lib cli pre ap" and "primaryArg (currCommand ap) \<noteq> None" and "bare tok"
  shows "(length (filter bare pre) = length (commandStack ap) - 1 \<longrightarrow> rprimaryArg (currResult ap) = [])
       \<and> (rprimaryArg (currResult ap) = [] \<longrightarrow>
            (\<exists>ap'. consume lib ap tok = (None, ap') \<and> rprimaryArg (currResult ap') = tok
                  \<and> PrimaryArg (currResult ap') = (tok, tok \<noteq> [])
                  \<and> commandStack ap' = commandStack ap \<and> events ap' = events ap))
       \<and> (rprimaryArg (currResult ap) \<noteq> [] \<longrightarrow>
            consumeAll lib ap (tok # rest)
              = (Some (MultiplePrimaryArguments (Name (currCommand ap))), ap\<lparr>allowSubcommands := False\<rparr>))
       \<and> (\<forall>ds. (\<forall>t\<in>set ds. HasPrefix t ''-'') \<longrightarrow>
            rprimaryArg (currResult (snd (consumeAll lib ap ds))) = rprimaryArg (currResult ap)
          \<and> currCommand (snd (consumeAll lib ap ds)) = currCommand ap)
       \<and> PrimaryArg r = (rprimaryArg r, rprimaryArg r \<noteq> [])"
proof -
  have b: "\<not> HasPrefix tok ''-''" using assms(3) by (simp add: bare_def)
  have l: "linked ap" using assms(1) by (rule reached_linked)
  then obtain k where k: "length (heap ap) = Suc k"
    by (cases "heap ap") (auto simp: linked_def)
  with l have ca: "currAddr ap = k" by (simp add: linked_currAddr)
  have 1: "length (filter bare pre) = length (commandStack ap) - 1 \<longrightarrow> rprimaryArg (currResult ap) = []"
    using first_bare_unrecorded [OF assms(1)] by simp
  have 2: "rprimaryArg (currResult ap) = [] \<longrightarrow>
            (\<exists>ap'. consume lib ap tok = (None, ap') \<and> rprimaryArg (currResult ap') = tok
                  \<and> PrimaryArg (currResult ap') = (tok, tok \<noteq> [])
                  \<and> commandStack ap' = commandStack ap \<and> events ap' = events ap)"
    using assms(2) k
    by (simp add: consume_bare [OF b] Let_def currResult_def PrimaryArg_def ca nth_update_total)
  have 3: "rprimaryArg (currResult ap) \<noteq> [] \<longrightarrow>
            consumeAll lib ap (tok # rest)
              = (Some (MultiplePrimaryArguments (Name (currCommand ap))), ap\<lparr>allowSubcommands := False\<rparr>)"
    using assms(2) by (simp add: consume_bare [OF b] Let_def)
  have 4: "\<forall>ds. (\<forall>t\<in>set ds. HasPrefix t ''-'') \<longrightarrow>
            rprimaryArg (currResult (snd (consumeAll lib ap ds))) = rprimaryArg (currResult ap)
          \<and> currCommand (snd (consumeAll lib ap ds)) = currCommand ap"
    using consumeAll_dashed_frame [of _ lib ap]
    by (simp add: currResult_def currAddr_def currCommand_def)
  show ?thesis using 1 2 3 4 by (simp add: PrimaryArg_def)
qed

theorem primary_argument_recorded_once_witness:
  "reached exampleLib primaryCLI [''-f1''] (stateAfter primaryCLI [''-f1''])
   \<and> primaryArg (currCommand (stateAfter primaryCLI [''-f1''])) \<noteq> None
   \<and> bare ''prim''
   \<and> length (filter bare [''-f1'']) = length (commandStack (stateAfter primaryCLI [''-f1''])) - 1
   \<and> rprimaryArg (currResult (stateAfter primaryCLI [''-f1''])) = []
   \<and> (\<exists>ap'. consume exampleLib (stateAfter primaryCLI [''-f1'']) ''prim'' = (None, ap')
           \<and> PrimaryArg (currResult ap') = (''prim'', True))
   \<and> reached exampleLib primaryCLI [''prim1''] (stateAfter primaryCLI [''prim1''])
   \<and> rprimaryArg (currResult (stateAfter primaryCLI [''prim1''])) \<noteq> []
   \<and> consumeAll exampleLib (stateAfter primaryCLI [''prim1'']) [''prim2'']
       = (Some (MultiplePrimaryArguments ''olive''), (stateAfter primaryCLI [''prim1''])\<lparr>allowSubcommands := False\<rparr>)"
proof -
  let ?a = "stateAfter primaryCLI [''-f1'']" and ?b = "stateAfter primaryCLI [''prim1'']"
  have ra: "reached exampleLib primaryCLI [''-f1''] ?a"
    by (simp add: run_defs primaryCLI_def flag1_def)
  have rb: "reached exampleLib primaryCLI [''prim1''] ?b"
    by (simp add: run_defs primaryCLI_def)
  have pa: "primaryArg (currCommand ?a) \<noteq> None"
    by (simp add: run_defs primaryCLI_def flag1_def)
  have pb: "primaryArg (currCommand ?b) \<noteq> None"
    by (simp add: run_defs primaryCLI_def)
  have b1: "bare ''prim''" and b2: "bare ''prim2''" by (simp_all add: bare_def HasPrefix_def)
  have n: "length (filter bare [''-f1'']) = length (commandStack ?a) - 1"
    by (simp add: run_defs primaryCLI_def flag1_def)
  have nb: "rprimaryArg (currResult ?b) \<noteq> []" "Name (currCommand ?b) = ''olive''"
    by (simp_all add: run_defs primaryCLI_def)
  note A = primary_argument_recorded_once [OF ra pa b1, where rest = "[]"]
  note B = primary_argument_recorded_once [OF rb pb b2, where rest = "[]"]
  from A n have e: "rprimaryArg (currResult ?a) = []" by blast
  with A have "\<exists>ap'. consume exampleLib ?a ''prim'' = (None, ap') \<and> rprimaryArg (currResult ap') = ''prim''
                  \<and> PrimaryArg (currResult ap') = (''prim'', ''prim'' \<noteq> [])
                  \<and> commandStack ap' = commandStack ?a \<and> events ap' = events ?a" by blast
  then have x: "\<exists>ap'. consume exampleLib ?a ''prim'' = (None, ap')
           \<and> PrimaryArg (currResult ap') = (''prim'', True)" by auto
  from B nb have y: "consumeAll exampleLib ?b [''prim2'']
       = (Some (MultiplePrimaryArguments ''olive''), ?b\<lparr>allowSubcommands := False\<rparr>)"
    by metis
  show ?thesis
    using ra rb pa n nb b1 e x y by simp
qed

text \<open>
  C2. A token that starts with a dash is resolved against the command stack from
  the innermost command to the root, and the first level that declares the name
  wins: the flag (no value) or the argument (with a value) is set in the result of
  that level, so a declaration of the innermost command shadows one of an ancestor
  and a declaration of an ancestor is reachable from inside a subcommand. A token
  with two dashes is looked up in the tables of full names, one with a single dash
  in the tables of short names. When no level declares the name the parse fails:
  unknown flag, or unknown argument. Every name is in one of the two cases.
\<close>

theorem dashed_token_resolves_innermost_first:
  assumes "HasPrefix tok ''-''" and "extractComponents tok = (nm, v)"
  shows "(v = [] \<and> innermost (if HasPrefix tok ''--'' then flags else flagsByShortName) (commandStack ap) nm i f \<longrightarrow>
            consume lib ap tok = setFlag (ap\<lparr>allowSubcommands := False\<rparr>) i f)
       \<and> (v = [] \<and> undeclared (if HasPrefix tok ''--'' then flags else flagsByShortName) (commandStack ap) nm \<longrightarrow>
            consume lib ap tok
              = (Some ((if HasPrefix tok ''--'' then UnknownFlag else UnknownFlagByShortName) nm),
                 ap\<lparr>allowSubcommands := False\<rparr>))
       \<and> (v \<noteq> [] \<and> innermost (if HasPrefix tok ''--'' then args else argsByShortName) (commandStack ap) nm j a \<longrightarrow>
            consume lib ap tok = setArg lib (ap\<lparr>allowSubcommands := False\<rparr>) j a v)
       \<and> (v \<noteq> [] \<and> undeclared (if HasPrefix tok ''--'' then args else argsByShortName) (commandStack ap) nm \<longrightarrow>
            consume lib ap tok
              = (Some ((if HasPrefix tok ''--'' then UnknownArgument else UnknownArgumentByShortName) nm),
                 ap\<lparr>allowSubcommands := False\<rparr>))
       \<and> (undeclared flags (commandStack ap) nm \<or> (\<exists>i f. innermost flags (commandStack ap) nm i f))
       \<and> (undeclared flagsByShortName (commandStack ap) nm \<or> (\<exists>i f. innermost flagsByShortName (commandStack ap) nm i f))
       \<and> (undeclared args (commandStack ap) nm \<or> (\<exists>i a. innermost args (commandStack ap) nm i a))
       \<and> (undeclared argsByShortName (commandStack ap) nm \<or> (\<exists>i a. innermost argsByShortName (commandStack ap) nm i a))"
proof -
  note c = consume_dashed [OF assms, of lib ap]
  show ?thesis
    by (auto simp: c Let_def innermost_or_undeclared dest!: innermost_search undeclared_search)
qed

theorem dashed_token_resolves_innermost_first_witness:
  "reached exampleLib shadowCLI [''build''] (stateAfter shadowCLI [''build''])
   \<and> commandStack (stateAfter shadowCLI [''build'']) = [shadowCLI, buildCmd]
   \<and> innermost flags [shadowCLI, buildCmd] ''verbose'' 1 verboseBuild
   \<and> consume exampleLib (stateAfter shadowCLI [''build'']) ''--verbose''
       = setFlag ((stateAfter shadowCLI [''build''])\<lparr>allowSubcommands := False\<rparr>) 1 verboseBuild
   \<and> innermost flagsByShortName [shadowCLI, buildCmd] ''q'' 0 quietFlag
   \<and> consume exampleLib (stateAfter shadowCLI [''build'']) ''-q''
       = setFlag ((stateAfter shadowCLI [''build''])\<lparr>allowSubcommands := False\<rparr>) 0 quietFlag
   \<and> innermost args [shadowCLI, buildCmd] ''output'' 1 outBuild
   \<and> consume exampleLib (stateAfter shadowCLI [''build'']) ''--output=a=b''
       = setArg exampleLib ((stateAfter shadowCLI [''build''])\<lparr>allowSubcommands := False\<rparr>) 1 outBuild ''a=b''
   \<and> undeclared flags [shadowCLI, buildCmd] ''nope''
   \<and> consume exampleLib (stateAfter shadowCLI [''build'']) ''--nope''
       = (Some (UnknownFlag ''nope''), (stateAfter shadowCLI [''build''])\<lparr>allowSubcommands := False\<rparr>)
   \<and> undeclared argsByShortName [shadowCLI, buildCmd] ''n''
   \<and> consume exampleLib (stateAfter shadowCLI [''build'']) ''-n=1''
       = (Some (UnknownArgumentByShortName ''n''), (stateAfter shadowCLI [''build''])\<lparr>allowSubcommands := False\<rparr>)"
proof -
  let ?s = "stateAfter shadowCLI [''build'']"
  have r: "reached exampleLib shadowCLI [''build''] ?s"
    by (simp add: run_defs shadowCLI_def)
  have cs: "commandStack ?s = [shadowCLI, buildCmd]"
    by (simp add: run_defs shadowCLI_def)
  have p: "HasPrefix ''--verbose'' ''-''" "HasPrefix ''-q'' ''-''" "HasPrefix ''--output=a=b'' ''-''"
    "HasPrefix ''--nope'' ''-''" "HasPrefix ''-n=1'' ''-''"
    "HasPrefix ''--verbose'' ''--''" "\<not> HasPrefix ''-q'' ''--''" "HasPrefix ''--output=a=b'' ''--''"
    "HasPrefix ''--nope'' ''--''" "\<not> HasPrefix ''-n=1'' ''--''"
    by (simp_all add: HasPrefix_def)
  have e: "extractComponents ''--verbose'' = (''verbose'', [])" "extractComponents ''-q'' = (''q'', [])"
    "extractComponents ''--output=a=b'' = (''output'', ''a=b'')"
    "extractComponents ''--nope'' = (''nope'', [])" "extractComponents ''-n=1'' = (''n'', ''1'')"
    by (simp_all add: extractComponents_eq)
  have i1: "innermost flags [shadowCLI, buildCmd] ''verbose'' 1 verboseBuild"
    and i2: "innermost flagsByShortName [shadowCLI, buildCmd] ''q'' 0 quietFlag"
    and i3: "innermost args [shadowCLI, buildCmd] ''output'' 1 outBuild"
    and u1: "undeclared flags [shadowCLI, buildCmd] ''nope''"
    and u2: "undeclared argsByShortName [shadowCLI, buildCmd] ''n''"
    by (simp_all add: innermost_def undeclared_def shadowCLI_def buildCmd_def)
  note T = dashed_token_resolves_innermost_first [where lib = exampleLib and ap = ?s, unfolded cs]
  show ?thesis
    using r cs i1 i2 i3 u1 u2
      T [OF p(1) e(1), where i = 1 and f = verboseBuild]
      T [OF p(2) e(2), where i = 0 and f = quietFlag]
      T [OF p(3) e(3), where j = 1 and a = outBuild]
      T [OF p(4) e(4)]
      T [OF p(5) e(5)]
    by (simp add: p)
qed

text \<open>
  C3, as amended. A token that starts with two dashes is split at its first \<open>=\<close>:
  the name is the text before it without its leading dashes, the raw value is the
  text after it, further \<open>=\<close> included as they are (and the empty string when the
  token has no \<open>=\<close>). The token is resolved as a named argument exactly when the
  raw value is not empty; a token with no \<open>=\<close>, or with nothing after its first
  \<open>=\<close>, is resolved as a flag of that name.
\<close>

theorem double_dash_token_split:
  assumes "HasPrefix tok ''--''"
  shows "extractComponents tok =
           (dropWhile (\<lambda>c. c = CHR ''-'') (takeWhile (\<lambda>c. c \<noteq> CHR ''='') tok),
            if CHR ''='' \<in> set tok then tl (dropWhile (\<lambda>c. c \<noteq> CHR ''='') tok) else [])
       \<and> (CHR ''='' \<notin> set nm \<longrightarrow> extractComponents (''--'' @ nm @ ''='' @ v) = (dropWhile (\<lambda>c. c = CHR ''-'') nm, v))
       \<and> (snd (extractComponents tok) \<noteq> [] \<longrightarrow>
            consume lib ap tok =
              (case searchStack args (commandStack ap) (length (commandStack ap)) (fst (extractComponents tok)) of
                 Some (i, a) \<Rightarrow> setArg lib (ap\<lparr>allowSubcommands := False\<rparr>) i a (snd (extractComponents tok))
               | None \<Rightarrow> (Some (UnknownArgument (fst (extractComponents tok))), ap\<lparr>allowSubcommands := False\<rparr>)))
       \<and> (snd (extractComponents tok) = [] \<longrightarrow>
            consume lib ap tok =
              (case searchStack flags (commandStack ap) (length (commandStack ap)) (fst (extractComponents tok)) of
                 Some (i, f) \<Rightarrow> setFlag (ap\<lparr>allowSubcommands := False\<rparr>) i f
               | None \<Rightarrow> (Some (UnknownFlag (fst (extractComponents tok))), ap\<lparr>allowSubcommands := False\<rparr>)))"
proof -
  have d: "HasPrefix tok ''-''"
    using assms by (auto simp: HasPrefix_def dest: arg_cong [where f = "take 1"])
  obtain n w where e: "extractComponents tok = (n, w)" by (cases "extractComponents tok")
  have s: "CHR ''='' \<notin> set nm \<Longrightarrow> extractComponents (''--'' @ nm @ ''='' @ v) = (dropWhile (\<lambda>c. c = CHR ''-'') nm, v)"
    by (simp add: extractComponents_eq takeWhile_tail dropWhile_append3 takeWhile_no_sep
          dropWhile_append dropWhile_no_sep)
  have c: "consume lib ap tok =
      (if w = [] then
         (case searchStack flags (commandStack ap) (length (commandStack ap)) n of
            Some (i, f) \<Rightarrow> setFlag (ap\<lparr>allowSubcommands := False\<rparr>) i f
          | None \<Rightarrow> (Some (UnknownFlag n), ap\<lparr>allowSubcommands := False\<rparr>))
       else
         (case searchStack args (commandStack ap) (length (commandStack ap)) n of
            Some (i, a) \<Rightarrow> setArg lib (ap\<lparr>allowSubcommands := False\<rparr>) i a w
          | None \<Rightarrow> (Some (UnknownArgument n), ap\<lparr>allowSubcommands := False\<rparr>)))"
    using assms by (simp add: consume_dashed [OF d e] Let_def)
  have x: "extractComponents tok =
           (dropWhile (\<lambda>c. c = CHR ''-'') (takeWhile (\<lambda>c. c \<noteq> CHR ''='') tok),
            if CHR ''='' \<in> set tok then tl (dropWhile (\<lambda>c. c \<noteq> CHR ''='') tok) else [])"
    by (rule extractComponents_eq)
  have f: "fst (extractComponents tok) = n" "snd (extractComponents tok) = w"
    by (simp_all add: e)
  show ?thesis
    unfolding f using x s c by simp
qed

text \<open>A value with a further \<open>=\<close> is kept whole; a token with no \<open>=\<close> sets a flag.\<close>

theorem double_dash_token_split_witness:
  "HasPrefix ''--output=a=b'' ''--''
   \<and> extractComponents ''--output=a=b'' = (''output'', ''a=b'')
   \<and> consume exampleLib (startParse (newParser shadowCLI)) ''--output=a=b''
       = setArg exampleLib ((startParse (newParser shadowCLI))\<lparr>allowSubcommands := False\<rparr>) 0 outRoot ''a=b''
   \<and> HasPrefix ''--quiet'' ''--''
   \<and> extractComponents ''--quiet'' = (''quiet'', [])
   \<and> consume exampleLib (startParse (newParser shadowCLI)) ''--quiet''
       = setFlag ((startParse (newParser shadowCLI))\<lparr>allowSubcommands := False\<rparr>) 0 quietFlag"
proof -
  let ?s = "startParse (newParser shadowCLI)"
  have p: "HasPrefix ''--output=a=b'' ''--''" "HasPrefix ''--quiet'' ''--''"
    by (simp_all add: HasPrefix_def)
  have e: "extractComponents ''--output=a=b'' = (''output'', ''a=b'')"
    "extractComponents ''--quiet'' = (''quiet'', [])"
    by (simp_all add: extractComponents_eq)
  have cs: "commandStack ?s = [shadowCLI]" by (simp add: startParse_def newParser_def)
  have s: "searchStack args [shadowCLI] (length [shadowCLI]) ''output'' = Some (0, outRoot)"
    "searchStack flags [shadowCLI] (length [shadowCLI]) ''quiet'' = Some (0, quietFlag)"
    by (simp_all add: shadowCLI_def)
  note A = double_dash_token_split [OF p(1), where lib = exampleLib and ap = ?s, unfolded cs e s]
  note B = double_dash_token_split [OF p(2), where lib = exampleLib and ap = ?s, unfolded cs e s]
  from A have a: "consume exampleLib ?s ''--output=a=b''
       = setArg exampleLib (?s\<lparr>allowSubcommands := False\<rparr>) 0 outRoot ''a=b''"
    by (simp add: shadowCLI_def)
  from B have b: "consume exampleLib ?s ''--quiet''
       = setFlag (?s\<lparr>allowSubcommands := False\<rparr>) 0 quietFlag"
    by (simp add: shadowCLI_def)
  show ?thesis
    using p e a b by simp
qed

text \<open>
  C3 as stated fails on a token that ends with its first \<open>=\<close>: with a flag and a
  string argument both named \<open>flag1\<close>, the token \<^verbatim>\<open>--flag1=\<close> sets the flag and leaves
  the argument unset.
\<close>

theorem empty_value_is_a_flag_counterexample:
  "HasPrefix ''--flag1='' ''--''
   \<and> CHR ''='' \<in> set ''--flag1=''
   \<and> map_of (args flagsAndArgsCLI) ''flag1'' = Some flag1Arg
   \<and> consume exampleLib (startParse (newParser flagsAndArgsCLI)) ''--flag1=''
       = setFlag ((startParse (newParser flagsAndArgsCLI))\<lparr>allowSubcommands := False\<rparr>) 0 flag1
   \<and> fst (consume exampleLib (startParse (newParser flagsAndArgsCLI)) ''--flag1='') = None
   \<and> HasFlag (heap (snd (consume exampleLib (startParse (newParser flagsAndArgsCLI)) ''--flag1='')) ! 0) ''flag1''
   \<and> Arguments (heap (snd (consume exampleLib (startParse (newParser flagsAndArgsCLI)) ''--flag1='')) ! 0) ''flag1'' = None
   \<and> consume exampleLib (startParse (newParser flagsAndArgsCLI)) ''--flag1=''
       \<noteq> setArg exampleLib ((startParse (newParser flagsAndArgsCLI))\<lparr>allowSubcommands := False\<rparr>) 0 flag1Arg []"
  by (simp add: run_defs HasFlag_def flagsAndArgsCLI_def flag1_def flag1Arg_def)

text \<open>
  C4. In every state of a parse: a token that starts with a dash, or any token
  while the active command has a primary argument, clears the latch when it is
  consumed; once the latch is cleared it stays cleared and the command stack no
  longer changes, whatever tokens follow, so no later token is resolved as a
  subcommand; and a bare token then fails the parse with the error of an unknown
  subcommand when the active command has no primary argument. The subcommands
  entered are the first tokens of the list, each a bare token that names a child
  of the command before it, and while the latch is set every token consumed so far
  was one of them.
\<close>

theorem subcommands_only_before_latch_cleared:
  assumes "reached lib cli pre ap"
  shows "((HasPrefix tok ''-'' \<or> primaryArg (currCommand ap) \<noteq> None) \<and> consume lib ap tok = (None, ap')
            \<longrightarrow> \<not> allowSubcommands ap')
       \<and> (\<not> allowSubcommands ap \<longrightarrow>
             \<not> allowSubcommands (snd (consumeAll lib ap ts))
           \<and> commandStack (snd (consumeAll lib ap ts)) = commandStack ap)
       \<and> (\<not> allowSubcommands ap \<and> bare tok \<and> primaryArg (currCommand ap) = None \<longrightarrow>
             consumeAll lib ap (tok # rest) = (Some (UnknownSubcommand tok), ap))
       \<and> length (commandStack ap) \<le> Suc (length pre)
       \<and> commandStack ap ! 0 = cli
       \<and> (\<forall>i. Suc i < length (commandStack ap) \<longrightarrow>
             bare (pre ! i) \<and> map_of (subcommands (commandStack ap ! i)) (pre ! i) = Some (commandStack ap ! Suc i))
       \<and> (allowSubcommands ap \<longrightarrow> length (commandStack ap) = Suc (length pre))"
proof -
  have 3: "\<not> allowSubcommands ap \<and> bare tok \<and> primaryArg (currCommand ap) = None \<longrightarrow>
             consumeAll lib ap (tok # rest) = (Some (UnknownSubcommand tok), ap)"
    by (auto simp: bare_def consume_bare)
  show ?thesis
    using consume_latch_cleared [of lib ap tok ap'] consumeAll_latch_frozen [of ap lib ts]
      subcommands_are_a_prefix [OF assms] 3
    by blast
qed

theorem subcommands_only_before_latch_cleared_witness:
  "reached exampleLib shadowCLI [''build'', ''-q''] (stateAfter shadowCLI [''build'', ''-q''])
   \<and> \<not> allowSubcommands (stateAfter shadowCLI [''build'', ''-q''])
   \<and> commandStack (stateAfter shadowCLI [''build'', ''-q'']) = [shadowCLI, buildCmd]
   \<and> map_of (subcommands shadowCLI) ''build'' = Some buildCmd
   \<and> consumeAll exampleLib (stateAfter shadowCLI [''build'', ''-q'']) [''build'']
       = (Some (UnknownSubcommand ''build''), stateAfter shadowCLI [''build'', ''-q''])
   \<and> reached exampleLib shadowCLI [] (stateAfter shadowCLI [])
   \<and> consume exampleLib (stateAfter shadowCLI []) ''-q'' = (None, stateAfter shadowCLI [''-q''])
   \<and> \<not> allowSubcommands (stateAfter shadowCLI [''-q''])
   \<and> consumeAll exampleLib (stateAfter shadowCLI [''-q'']) [''build'']
       = (Some (UnknownSubcommand ''build''), stateAfter shadowCLI [''-q''])"
proof -
  let ?a = "stateAfter shadowCLI [''build'', ''-q'']" and ?b = "stateAfter shadowCLI [''-q'']"
  let ?z = "stateAfter shadowCLI []"
  have ra: "reached exampleLib shadowCLI [''build'', ''-q''] ?a"
    and rb: "reached exampleLib shadowCLI [''-q''] ?b"
    and rz: "reached exampleLib shadowCLI [] ?z"
    by (simp_all add: run_defs shadowCLI_def buildCmd_def quietFlag_def)
  have cz: "consume exampleLib ?z ''-q'' = (None, ?b)"
    by (simp add: run_defs shadowCLI_def quietFlag_def)
  have cs: "commandStack ?a = [shadowCLI, buildCmd]"
    by (simp add: run_defs shadowCLI_def buildCmd_def quietFlag_def)
  have np: "primaryArg (currCommand ?a) = None" "primaryArg (currCommand ?b) = None"
    by (simp_all add: run_defs shadowCLI_def buildCmd_def quietFlag_def)
  have b: "bare ''build''" "HasPrefix ''-q'' ''-''" by (simp_all add: bare_def HasPrefix_def)
  have m: "map_of (subcommands shadowCLI) ''build'' = Some buildCmd" by (simp add: shadowCLI_def)
  note A = subcommands_only_before_latch_cleared [OF ra, where tok = "''build''" and rest = "[]" and ts = "[]"]
  note Z = subcommands_only_before_latch_cleared [OF rz, where tok = "''-q''" and ap' = ?b]
  note B = subcommands_only_before_latch_cleared [OF rb, where tok = "''build''" and rest = "[]" and ts = "[]"]
  from Z cz b have lb: "\<not> allowSubcommands ?b" by blast
  with B b np have eb: "consumeAll exampleLib ?b [''build''] = (Some (UnknownSubcommand ''build''), ?b)"
    by blast
  from A cs have la: "\<not> allowSubcommands ?a" by auto
  with A b np have ea: "consumeAll exampleLib ?a [''build''] = (Some (UnknownSubcommand ''build''), ?a)"
    by blast
  show ?thesis
    using ra rz cz cs m la lb ea eb by simp
qed

text \<open>
  C7. A parse fails with the error that a subcommand is required exactly when all
  the tokens were consumed without error and the innermost command of the final
  stack declares at least one subcommand and marks subcommands as required; the
  error names that command. No subcommand is chosen in the result of this
  innermost command, and every command below it on the stack has its subcommand
  chosen: the requirement of an ancestor never fails a parse that went into one
  of its subcommands.
\<close>

theorem requires_subcommand_checked_on_innermost:
  "(parse lib (newParser cli) ts = (Inl (RequiresASubcommand n), ap) \<longleftrightarrow>
      reached lib cli ts ap \<and> subcommands (currCommand ap) \<noteq> [] \<and> RequiresSubcommand (currCommand ap)
      \<and> n = Name (currCommand ap))
   \<and> (reached lib cli ts ap \<longrightarrow>
        Subcommand (currResult ap) = (subcommandName (currResult ap), None, False)
      \<and> (\<forall>i. Suc i < length (commandStack ap) \<longrightarrow>
            snd (Subcommand (heap ap ! (semanticStack ap ! i))) = (Some (semanticStack ap ! Suc i), True)))"
proof -
  have "Subcommand (currResult ap) = (subcommandName (currResult ap), None, False)
      \<and> (\<forall>i. Suc i < length (commandStack ap) \<longrightarrow>
            snd (Subcommand (heap ap ! (semanticStack ap ! i))) = (Some (semanticStack ap ! Suc i), True))"
    if "reached lib cli ts ap"
  proof -
    have l: "linked ap" using that by (rule reached_linked)
    then have "subcommandRes (currResult ap) = None"
      by (simp add: currResult_def linked_currAddr) (simp add: linked_def)
    moreover have "snd (Subcommand (heap ap ! (semanticStack ap ! i))) = (Some (semanticStack ap ! Suc i), True)"
      if "Suc i < length (commandStack ap)" for i
      using l that by (simp add: linked_def Subcommand_def)
    ultimately show ?thesis by (simp add: Subcommand_def)
  qed
  then show ?thesis by (simp add: parse_requires)
qed

theorem requires_subcommand_checked_on_innermost_witness:
  "parse exampleLib (newParser shadowCLI) [] = (Inl (RequiresASubcommand ''olive''), stateAfter shadowCLI [])
   \<and> reached exampleLib shadowCLI [''build''] (stateAfter shadowCLI [''build''])
   \<and> RequiresSubcommand shadowCLI
   \<and> subcommands (currCommand (stateAfter shadowCLI [''build''])) = []
   \<and> fst (parse exampleLib (newParser shadowCLI) [''build'']) = Inr (Some 0)
   \<and> Subcommand (heap (stateAfter shadowCLI [''build'']) ! 0) = (''build'', Some 1, True)
   \<and> Subcommand (currResult (stateAfter shadowCLI [''build''])) = ([], None, False)"
proof -
  let ?z = "stateAfter shadowCLI []" and ?b = "stateAfter shadowCLI [''build'']"
  have rz: "reached exampleLib shadowCLI [] ?z" and rb: "reached exampleLib shadowCLI [''build''] ?b"
    by (simp_all add: run_defs shadowCLI_def buildCmd_def)
  have z: "subcommands (currCommand ?z) \<noteq> []" "RequiresSubcommand (currCommand ?z)"
    "Name (currCommand ?z) = ''olive''" "RequiresSubcommand shadowCLI"
    by (simp_all add: run_defs shadowCLI_def)
  have b: "subcommands (currCommand ?b) = []" "semanticStack ?b = [0, 1]" "length (commandStack ?b) = 2"
    "subcommandName (heap ?b ! 0) = ''build''" "subcommandName (currResult ?b) = []"
    by (simp_all add: run_defs shadowCLI_def buildCmd_def nth_update_total)
  note Z = requires_subcommand_checked_on_innermost [where lib = exampleLib and cli = shadowCLI
      and ts = "[]" and ap = ?z and n = "''olive''"]
  note B = requires_subcommand_checked_on_innermost [where lib = exampleLib and cli = shadowCLI and ts = "[''build'']" and ap = ?b]
  from Z rz z have 1: "parse exampleLib (newParser shadowCLI) [] = (Inl (RequiresASubcommand ''olive''), ?z)"
    by simp
  from B rb b have 2: "Subcommand (currResult ?b) = ([], None, False)"
    and "snd (Subcommand (heap ?b ! ([0, 1] ! 0))) = (Some ([0, 1::nat] ! Suc 0), True)"
    by auto
  then have 3: "Subcommand (heap ?b ! 0) = (''build'', Some 1, True)"
    using b(4) by (simp add: Subcommand_def)
  have 4: "fst (parse exampleLib (newParser shadowCLI) [''build'']) = Inr (Some 0)"
    by (simp add: parse_def run_defs shadowCLI_def buildCmd_def)
  show ?thesis using 1 2 3 4 rb z b by simp
qed

text \<open>
  C6. In every state of a parse, a token that names a flag already marked in the
  result of the level it resolves to fails the parse with the error that the flag
  is set multiple times, and runs no callback; a token that names a flag not yet
  marked marks it and runs its callback, if it has one, exactly once, within the
  step that consumes the token, and the step is without error: the parse goes on
  with the next token, unless the callback ended the process. Likewise a token for
  an argument that already has a value fails with the error that the argument is
  set multiple times. Hence two tokens that resolve to the same level and to flags
  (arguments) of the same name, such as the long and the short form of one flag,
  never both succeed: if the first and the tokens between them were consumed, the
  second fails.
\<close>

theorem set_twice_fails:
  assumes "reached lib cli pre ap"
  shows "(flagToken (commandStack ap) tok i f \<and> name f \<in> rflags (scopeResult ap i) \<longrightarrow>
            consumeAll lib ap (tok # rest)
              = (Some (FlagSetMultipleTimes (name f)), ap\<lparr>allowSubcommands := False\<rparr>))
       \<and> (flagToken (commandStack ap) tok i f \<and> name f \<notin> rflags (scopeResult ap i) \<longrightarrow>
            (\<exists>ap'. consume lib ap tok = (if endsProcess f then Some ProcessExit else None, ap')
                 \<and> rflags (scopeResult ap' i) = insert (name f) (rflags (scopeResult ap i))
                 \<and> events ap' = events ap @ (case action f of None \<Rightarrow> [] | Some c \<Rightarrow> [ActionRun c])))
       \<and> (argToken (commandStack ap) tok i a \<and> Arguments (scopeResult ap i) (ArgName a) \<noteq> None \<longrightarrow>
            consumeAll lib ap (tok # rest)
              = (Some (ArgumentSetMultipleTimes (ArgName a)), ap\<lparr>allowSubcommands := False\<rparr>))
       \<and> (flagToken (commandStack ap) t1 i f1 \<and> flagToken (commandStack ap) t2 i f2 \<and> name f1 = name f2
            \<and> consumeAll lib ap (t1 # mid) = (None, ap2) \<longrightarrow>
            consume lib ap2 t2 = (Some (FlagSetMultipleTimes (name f2)), ap2\<lparr>allowSubcommands := False\<rparr>))
       \<and> (argToken (commandStack ap) t1 i a1 \<and> argToken (commandStack ap) t2 i a2 \<and> ArgName a1 = ArgName a2
            \<and> consumeAll lib ap (t1 # mid) = (None, ap2) \<longrightarrow>
            consume lib ap2 t2 = (Some (ArgumentSetMultipleTimes (ArgName a2)), ap2\<lparr>allowSubcommands := False\<rparr>))"
proof -
  have l: "linked ap" using assms by (rule reached_linked)
  have 1: "flagToken (commandStack ap) tok i f \<and> name f \<in> rflags (scopeResult ap i) \<longrightarrow>
            consumeAll lib ap (tok # rest)
              = (Some (FlagSetMultipleTimes (name f)), ap\<lparr>allowSubcommands := False\<rparr>)"
    using consume_flagToken [of ap tok i f lib]
    by (auto simp: setFlag_eq Let_def scopeResult_def)
  have 2: "flagToken (commandStack ap) tok i f \<and> name f \<notin> rflags (scopeResult ap i) \<longrightarrow>
            (\<exists>ap'. consume lib ap tok = (if endsProcess f then Some ProcessExit else None, ap')
                 \<and> rflags (scopeResult ap' i) = insert (name f) (rflags (scopeResult ap i))
                 \<and> events ap' = events ap @ (case action f of None \<Rightarrow> [] | Some c \<Rightarrow> [ActionRun c]))"
    using l consume_flagToken [of ap tok i f lib] flagToken_level [of "commandStack ap" tok i f]
    by (auto simp: setFlag_eq Let_def scopeResult_def nth_update_total linked_def)
  have 3: "argToken (commandStack ap) tok i a \<and> Arguments (scopeResult ap i) (ArgName a) \<noteq> None \<longrightarrow>
            consumeAll lib ap (tok # rest)
              = (Some (ArgumentSetMultipleTimes (ArgName a)), ap\<lparr>allowSubcommands := False\<rparr>)"
    using consume_argToken [of ap tok i a lib]
    by (auto simp: setArg_eq Let_def scopeResult_def)
  show ?thesis
    using 1 2 3 set_flag_again [OF l, of t1 i f1 t2 f2 lib mid ap2]
      set_arg_again [OF l, of t1 i a1 t2 a2 lib mid ap2]
    by blast
qed


theorem set_twice_fails_witness:
  "reached exampleLib primaryCLI [] (stateAfter primaryCLI [])
   \<and> flagToken [primaryCLI] ''-f1'' 0 flag1 \<and> flagToken [primaryCLI] ''--flag1'' 0 flag1
   \<and> consumeAll exampleLib (stateAfter primaryCLI []) [''-f1''] = (None, stateAfter primaryCLI [''-f1''])
   \<and> consume exampleLib (stateAfter primaryCLI [''-f1'']) ''--flag1''
       = (Some (FlagSetMultipleTimes ''flag1''), (stateAfter primaryCLI [''-f1''])\<lparr>allowSubcommands := False\<rparr>)
   \<and> argToken [primaryCLI] ''--sel=val1'' 0 sel3Arg \<and> argToken [primaryCLI] ''-s=val2'' 0 sel3Arg
   \<and> consumeAll exampleLib (stateAfter primaryCLI []) [''--sel=val1''] = (None, stateAfter primaryCLI [''--sel=val1''])
   \<and> consume exampleLib (stateAfter primaryCLI [''--sel=val1'']) ''-s=val2''
       = (Some (ArgumentSetMultipleTimes ''sel''), (stateAfter primaryCLI [''--sel=val1''])\<lparr>allowSubcommands := False\<rparr>)
   \<and> reached exampleLib flagsAndArgsCLI [] (stateAfter flagsAndArgsCLI [])
   \<and> flagToken [flagsAndArgsCLI] ''--flag2'' 0 flag2
   \<and> name flag2 \<notin> rflags (scopeResult (stateAfter flagsAndArgsCLI []) 0)
   \<and> (\<exists>ap'. consume exampleLib (stateAfter flagsAndArgsCLI []) ''--flag2'' = (None, ap')
          \<and> rflags (scopeResult ap' 0) = {''flag2''} \<and> events ap' = [ActionRun (Returning 7)])
   \<and> reached exampleLib (NewCLI ''olive'' [] True) [] (stateAfter (NewCLI ''olive'' [] True) [])
   \<and> flagToken [NewCLI ''olive'' [] True] ''-h'' 0 (helpFlag ''olive'')
   \<and> (\<exists>ap'. consume exampleLib (stateAfter (NewCLI ''olive'' [] True) []) ''-h'' = (Some ProcessExit, ap')
          \<and> rflags (scopeResult ap' 0) = {''help''} \<and> events ap' = [ActionRun (HelpAndExit ''olive'')])"
proof -
  let ?p = "stateAfter primaryCLI []" and ?f = "stateAfter flagsAndArgsCLI []"
  let ?h = "stateAfter (NewCLI ''olive'' [] True) []"
  have rp: "reached exampleLib primaryCLI [] ?p" and rf: "reached exampleLib flagsAndArgsCLI [] ?f"
    and rh: "reached exampleLib (NewCLI ''olive'' [] True) [] ?h"
    by (simp_all add: run_defs)
  have cs: "commandStack ?p = [primaryCLI]" "commandStack ?f = [flagsAndArgsCLI]"
    "commandStack ?h = [NewCLI ''olive'' [] True]"
    by (simp_all add: run_defs)
  have fh: "flagToken [NewCLI ''olive'' [] True] ''-h'' 0 (helpFlag ''olive'')"
    by (simp add: flagToken_def tokenValue_def tokenName_def innermost_def HasPrefix_def
          NewCLI_def newCommand_def)
  have eh: "name (helpFlag ''olive'') \<notin> rflags (scopeResult ?h 0)" "rflags (scopeResult ?h 0) = {}"
    "events ?h = []" "name (helpFlag ''olive'') = ''help''"
    "action (helpFlag ''olive'') = Some (HelpAndExit ''olive'')" "endsProcess (helpFlag ''olive'')"
    by (simp_all add: run_defs scopeResult_def helpFlag_def endsProcess_def)
  have ft: "flagToken [primaryCLI] ''-f1'' 0 flag1" "flagToken [primaryCLI] ''--flag1'' 0 flag1"
    "flagToken [flagsAndArgsCLI] ''--flag2'' 0 flag2"
    by (simp_all add: flagToken_def tokenValue_def tokenName_def innermost_def HasPrefix_def
          primaryCLI_def flagsAndArgsCLI_def)
  have at: "argToken [primaryCLI] ''--sel=val1'' 0 sel3Arg" "argToken [primaryCLI] ''-s=val2'' 0 sel3Arg"
    by (simp_all add: argToken_def tokenValue_def tokenName_def innermost_def HasPrefix_def
          primaryCLI_def)
  have c1: "consumeAll exampleLib ?p [''-f1''] = (None, stateAfter primaryCLI [''-f1''])"
    by (simp add: run_defs primaryCLI_def flag1_def)
  have c2: "consumeAll exampleLib ?p [''--sel=val1''] = (None, stateAfter primaryCLI [''--sel=val1''])"
    by (simp add: run_defs primaryCLI_def sel3Arg_def)
  have e: "name flag2 \<notin> rflags (scopeResult ?f 0)" "rflags (scopeResult ?f 0) = {}" "events ?f = []"
    "name flag2 = ''flag2''" "name flag1 = ''flag1''" "ArgName sel3Arg = ''sel''" "action flag2 = Some (Returning 7)"
    "\<not> endsProcess flag2"
    by (simp_all add: run_defs scopeResult_def flag2_def flag1_def sel3Arg_def endsProcess_def)
  note P = set_twice_fails [OF rp, unfolded cs]
  note F = set_twice_fails [OF rf, unfolded cs]
  from P [where ?t1.0 = "''-f1''" and ?t2.0 = "''--flag1''" and ?f1.0 = flag1 and ?f2.0 = flag1 and i = 0
         and mid = "[]" and ?ap2.0 = "stateAfter primaryCLI [''-f1'']"] ft c1
  have 1: "consume exampleLib (stateAfter primaryCLI [''-f1'']) ''--flag1''
       = (Some (FlagSetMultipleTimes ''flag1''), (stateAfter primaryCLI [''-f1''])\<lparr>allowSubcommands := False\<rparr>)"
    by (simp add: e)
  from P [where ?t1.0 = "''--sel=val1''" and ?t2.0 = "''-s=val2''" and ?a1.0 = sel3Arg and ?a2.0 = sel3Arg and i = 0
         and mid = "[]" and ?ap2.0 = "stateAfter primaryCLI [''--sel=val1'']"] at c2
  have 2: "consume exampleLib (stateAfter primaryCLI [''--sel=val1'']) ''-s=val2''
       = (Some (ArgumentSetMultipleTimes ''sel''), (stateAfter primaryCLI [''--sel=val1''])\<lparr>allowSubcommands := False\<rparr>)"
    by (simp add: e)
  note F2 = F [where tok = "''--flag2''" and f = flag2 and i = 0, THEN conjunct2, THEN conjunct1, rule_format]
  from F2 [OF conjI [OF ft(3) e(1)]] obtain ap' where
    x: "consume exampleLib ?f ''--flag2'' = (if endsProcess flag2 then Some ProcessExit else None, ap')"
      "rflags (scopeResult ap' 0) = insert (name flag2) (rflags (scopeResult ?f 0))"
      "events ap' = events ?f @ (case action flag2 of None \<Rightarrow> [] | Some c \<Rightarrow> [ActionRun c])"
    by blast
  have 3: "\<exists>ap'. consume exampleLib ?f ''--flag2'' = (None, ap')
          \<and> rflags (scopeResult ap' 0) = {''flag2''} \<and> events ap' = [ActionRun (Returning 7)]"
    using x e(8) unfolding e(2,3,4,7) by simp
  note H = set_twice_fails [OF rh, unfolded cs]
  note H2 = H [where tok = "''-h''" and f = "helpFlag ''olive''" and i = 0, THEN conjunct2, THEN conjunct1, rule_format]
  from H2 [OF conjI [OF fh eh(1)]] obtain ap'' where
    y: "consume exampleLib ?h ''-h'' = (if endsProcess (helpFlag ''olive'') then Some ProcessExit else None, ap'')"
      "rflags (scopeResult ap'' 0) = insert (name (helpFlag ''olive'')) (rflags (scopeResult ?h 0))"
      "events ap'' = events ?h @ (case action (helpFlag ''olive'') of None \<Rightarrow> [] | Some c \<Rightarrow> [ActionRun c])"
    by blast
  have 4: "\<exists>ap'. consume exampleLib ?h ''-h'' = (Some ProcessExit, ap')
          \<and> rflags (scopeResult ap' 0) = {''help''} \<and> events ap' = [ActionRun (HelpAndExit ''olive'')]"
    using y eh(6) unfolding eh(2,3,4,5) by simp
  show ?thesis
    using rp rf rh ft at fh c1 c2 e(1) 1 2 3 4 by simp
qed

text \<open>
  C10. The parser never reads the \<^verbatim>\<open>required\<close> field of a named or primary
  argument: two command trees that differ only in these fields give, on every
  token list, the same result or error, the same result objects and the same
  callbacks and validator calls. With no token at all the only possible error is
  the one of a required subcommand, and an argument with no default value is then
  simply absent from the result.
\<close>

theorem required_never_enforced:
  "(eraseRequired cli = eraseRequired cli' \<longrightarrow>
      fst (parse lib (newParser cli) ts) = fst (parse lib (newParser cli') ts)
    \<and> heap (snd (parse lib (newParser cli) ts)) = heap (snd (parse lib (newParser cli') ts))
    \<and> events (snd (parse lib (newParser cli) ts)) = events (snd (parse lib (newParser cli') ts)))
   \<and> fst (parse lib (newParser cli) [])
       = (if subcommands cli \<noteq> [] \<and> RequiresSubcommand cli
          then Inl (RequiresASubcommand (Name cli)) else Inr (Some 0))
   \<and> (\<not> (subcommands cli \<noteq> [] \<and> RequiresSubcommand cli)
      \<and> (\<forall>ka\<in>set (args cli). ArgName (snd ka) = n \<longrightarrow> defaultValue (base (snd ka)) = NilV) \<longrightarrow>
        Arguments (heap (snd (parse lib (newParser cli) [])) ! 0) n = None)"
proof -
  have 1: "fst (parse lib (newParser cli) ts) = fst (parse lib (newParser cli') ts)
    \<and> heap (snd (parse lib (newParser cli) ts)) = heap (snd (parse lib (newParser cli') ts))
    \<and> events (snd (parse lib (newParser cli) ts)) = events (snd (parse lib (newParser cli') ts))"
    if e: "eraseRequired cli = eraseRequired cli'"
  proof -
    have "parse lib (newParser (eraseRequired cli)) ts = parse lib (newParser (eraseRequired cli')) ts"
      by (simp add: e)
    then have f: "fst (parse lib (newParser cli) ts) = fst (parse lib (newParser cli') ts)"
      and es: "eraseState (snd (parse lib (newParser cli) ts)) = eraseState (snd (parse lib (newParser cli') ts))"
      by (simp_all add: parse_erase)
    have "heap (snd (parse lib (newParser cli) ts)) = heap (snd (parse lib (newParser cli') ts))"
      using arg_cong [OF es, of heap] by simp
    moreover have "events (snd (parse lib (newParser cli) ts)) = events (snd (parse lib (newParser cli') ts))"
      using arg_cong [OF es, of events] by simp
    ultimately show ?thesis using f by simp
  qed
  have 3: "Arguments (heap (snd (parse lib (newParser cli) [])) ! 0) n = None"
    if "\<not> (subcommands cli \<noteq> [] \<and> RequiresSubcommand cli)"
      and "\<forall>ka\<in>set (args cli). ArgName (snd ka) = n \<longrightarrow> defaultValue (base (snd ka)) = NilV"
  proof -
    let ?s = "startParse (newParser cli)"
    have l: "linked ?s" by (simp add: startParse_linked newParser_def)
    have h: "heap ?s = [newResult]" "commandStack ?s = [cli]"
      by (simp_all add: startParse_def newParser_def Let_def)
    have "heap (fillDefaults ?s (Suc 0)) ! 0 = fillArgs (args cli) newResult"
      using fillDefaults_heap [OF l, of "Suc 0" 0] h by (simp del: fillDefaults.simps)
    moreover have "Arguments (fillArgs (args cli) newResult) n = None"
      using that(2) by (intro fillArgs_None) (simp_all add: newResult_def)
    ultimately show ?thesis using that(1) by (auto simp: parse_no_tokens simp del: fillDefaults.simps)
  qed
  show ?thesis
    using 1 3 by (simp add: parse_no_tokens)
qed

theorem required_never_enforced_witness:
  "Required flag1Arg
   \<and> eraseRequired flagsAndArgsCLI = eraseRequired (eraseRequired flagsAndArgsCLI)
   \<and> fst (parse exampleLib (newParser flagsAndArgsCLI) [''-f1''])
       = fst (parse exampleLib (newParser (eraseRequired flagsAndArgsCLI)) [''-f1''])
   \<and> fst (parse exampleLib (newParser flagsAndArgsCLI) [''-f1'']) = Inr (Some 0)
   \<and> fst (parse exampleLib (newParser flagsAndArgsCLI) []) = Inr (Some 0)
   \<and> Arguments (heap (snd (parse exampleLib (newParser flagsAndArgsCLI) [])) ! 0) ''flag1'' = None"
proof -
  have r: "Required flag1Arg" by (simp add: Required_def flag1Arg_def)
  have e: "eraseRequired flagsAndArgsCLI = eraseRequired (eraseRequired flagsAndArgsCLI)"
    by (simp add: flagsAndArgsCLI_def flag1Arg_def)
  have s: "\<not> (subcommands flagsAndArgsCLI \<noteq> [] \<and> RequiresSubcommand flagsAndArgsCLI)"
    by (simp add: flagsAndArgsCLI_def)
  have d: "\<forall>ka\<in>set (args flagsAndArgsCLI). ArgName (snd ka) = ''flag1'' \<longrightarrow> defaultValue (base (snd ka)) = NilV"
    by (simp add: flagsAndArgsCLI_def flag1Arg_def)
  have p: "fst (parse exampleLib (newParser flagsAndArgsCLI) [''-f1'']) = Inr (Some 0)"
    by (simp add: parse_def run_defs flagsAndArgsCLI_def flag1_def)
  note T = required_never_enforced [where lib = exampleLib and cli = flagsAndArgsCLI
      and cli' = "eraseRequired flagsAndArgsCLI" and n = "''flag1''"]
  from T [where ts = "[''-f1'']"] e
  have 1: "fst (parse exampleLib (newParser flagsAndArgsCLI) [''-f1''])
       = fst (parse exampleLib (newParser (eraseRequired flagsAndArgsCLI)) [''-f1''])" by blast
  from T [where ts = "[]"] s d
  have 2: "fst (parse exampleLib (newParser flagsAndArgsCLI) []) = Inr (Some 0)"
    and 3: "Arguments (heap (snd (parse exampleLib (newParser flagsAndArgsCLI) [])) ! 0) ''flag1'' = None"
    by auto
  show ?thesis using r e p 1 2 3 by simp
qed

text \<open>
  C1, as amended. Take a valid command tree and a token list in legal order: first
  bare subcommand names that lead from the root down a path of the tree, then dashed
  tokens, each naming a flag declared on the path or giving an argument declared on
  the path a value that the argument accepts, no flag and no argument twice; let
  the last command of the path not lack a required subcommand, and let no flag
  named have a callback that ends the process. Then the parse succeeds and returns
  the root result, whose chain of subcommand results follows the path. In the
  result of the level it resolves to, every flag named is present and every
  argument given has its parsed value; a flag that no token names is absent; every
  declared argument that no token sets has its default value there if it has one
  (a default of 0 or of the empty string is a default), and no value if it has
  none. If such a list is followed by a token that names a flag not named before
  whose callback ends the process, as the callback of the help flag does, the flag
  is marked and the process ends at this token: no result is returned.
\<close>

theorem legal_tokens_parse:
  assumes "valid cli" and "walk cli ss = Some cs" and "\<forall>s\<in>set ss. bare s"
    and "\<forall>t\<in>set toks. legalToken lib cs t" and "noRepeat cs toks"
    and "\<not> (subcommands (last cs) \<noteq> [] \<and> RequiresSubcommand (last cs))"
    and "\<forall>t\<in>set toks. \<forall>i f. flagToken cs t i f \<longrightarrow> \<not> endsProcess f"
  shows "(\<exists>ap. parse lib (newParser cli) (ss @ toks) = (Inr (Some 0), ap)
          \<and> linked ap \<and> commandStack ap = cs
          \<and> (\<forall>t\<in>set toks. \<forall>i f. flagToken cs t i f \<longrightarrow> HasFlag (scopeResult ap i) (name f))
          \<and> (\<forall>t\<in>set toks. \<forall>i a x. argToken cs t i a \<and> snd (checkValue lib a (tokenValue t)) = Inr x
                \<longrightarrow> Arguments (scopeResult ap i) (ArgName a) = Some x)
          \<and> (\<forall>i<length cs. \<forall>ka\<in>set (args (cs ! i)).
                defaultValue (base (snd ka)) \<noteq> NilV
                \<and> (\<forall>t\<in>set toks. \<forall>a. argToken cs t i a \<longrightarrow> ArgName a \<noteq> ArgName (snd ka))
                \<longrightarrow> Arguments (scopeResult ap i) (ArgName (snd ka)) = Some (defaultValue (base (snd ka))))
          \<and> (\<forall>i<length cs. \<forall>n.
                (\<forall>t\<in>set toks. \<forall>a. argToken cs t i a \<longrightarrow> ArgName a \<noteq> n)
                \<and> (\<forall>ka\<in>set (args (cs ! i)). ArgName (snd ka) = n \<longrightarrow> defaultValue (base (snd ka)) = NilV)
                \<longrightarrow> Arguments (scopeResult ap i) n = None)
          \<and> (\<forall>i<length cs. \<forall>n.
                (\<forall>t\<in>set toks. \<forall>f. flagToken cs t i f \<longrightarrow> name f \<noteq> n)
                \<longrightarrow> \<not> HasFlag (scopeResult ap i) n)
          \<and> (\<forall>i. Suc i < length cs \<longrightarrow> Subcommand (scopeResult ap i) = (ss ! i, Some (Suc i), True)))
       \<and> (flagToken cs u k g \<and> endsProcess g \<and> (\<forall>t\<in>set toks. \<not> sameTarget cs t u) \<longrightarrow>
            (\<exists>ap. parse lib (newParser cli) (ss @ toks @ u # rest) = (Inl ProcessExit, ap)
                \<and> HasFlag (scopeResult ap k) (name g)
                \<and> ParseArgs lib cli (p # ss @ toks @ u # rest) = Exits ap))"
proof -
  from consume_subcommands [OF assms(1-3), of lib] obtain ap0 where
    r0: "reached lib cli ss ap0" and cs0: "commandStack ap0 = cs" and res0: "result ap0 = Some 0"
    and em: "\<forall>i<length cs. rflags (heap ap0 ! i) = {} \<and> Arguments (heap ap0 ! i) = Map.empty"
    and nm: "\<forall>i. Suc i < length cs \<longrightarrow> subcommandName (heap ap0 ! i) = ss ! i"
    by blast
  have l0: "linked ap0" using r0 by (rule reached_linked)
  have sr0: "scopeResult ap0 i = heap ap0 ! i" if "i < length cs" for i
    using l0 cs0 that by (simp add: scopeResult_linked)
  have p5: "\<forall>t\<in>set toks. \<forall>i f. flagToken cs t i f \<longrightarrow> name f \<notin> rflags (scopeResult ap0 i)"
    using em sr0 by (auto dest: flagToken_level)
  have p6: "\<forall>t\<in>set toks. \<forall>i a. argToken cs t i a \<longrightarrow> Arguments (scopeResult ap0 i) (ArgName a) = None"
    using em sr0 by (auto dest: argToken_level)
  from consume_legal_tokens [OF l0 cs0 assms(4,5) p5 p6 assms(7)] obtain ap1 where
    c1: "consumeAll lib ap0 toks = (None, ap1)" and l1: "linked ap1" and cs1: "commandStack ap1 = cs"
    and res1: "result ap1 = result ap0"
    and F: "\<forall>t\<in>set toks. \<forall>i f. flagToken cs t i f \<longrightarrow> name f \<in> rflags (scopeResult ap1 i)"
    and A: "\<forall>t\<in>set toks. \<forall>i a x. argToken cs t i a \<and> snd (checkValue lib a (tokenValue t)) = Inr x
               \<longrightarrow> Arguments (scopeResult ap1 i) (ArgName a) = Some x"
    and U: "\<forall>i<length cs. \<forall>n. (\<forall>t\<in>set toks. \<forall>a. argToken cs t i a \<longrightarrow> ArgName a \<noteq> n)
               \<longrightarrow> Arguments (scopeResult ap1 i) n = Arguments (scopeResult ap0 i) n"
    and V: "\<forall>i<length cs. \<forall>n. (\<forall>t\<in>set toks. \<forall>f. flagToken cs t i f \<longrightarrow> name f \<noteq> n)
               \<longrightarrow> (n \<in> rflags (scopeResult ap1 i)) = (n \<in> rflags (scopeResult ap0 i))"
    by blast
  have sr1: "scopeResult ap1 i = heap ap1 ! i" if "i < length cs" for i
    using l1 cs1 that by (simp add: scopeResult_linked)
  have hl: "length (heap ap1) = length cs" using l1 cs1 by (simp add: linked_def)
  have run: "consumeAll lib (startParse (newParser cli)) (ss @ toks) = (None, ap1)"
    using r0 c1 by (simp add: consumeAll_append reached_def)
  have cur: "currCommand ap1 = last cs" using l1 cs1 by (simp add: linked_last)
  let ?ap = "fillDefaults ap1 (length cs)"
  have P: "parse lib (newParser cli) (ss @ toks) = (Inr (Some 0), ?ap)"
    using assms(6) by (simp add: parse_def run cur cs1 res1 res0)
  have h2: "heap ?ap ! i = fillArgs (args (cs ! i)) (heap ap1 ! i)" if "i < length cs" for i
    using fillDefaults_heap [OF l1, of "length cs" i] that hl cs1 by simp
  have l2: "linked ?ap"
    using l1 by (rule fillDefaults_linked)
  have sr2: "scopeResult ?ap i = fillArgs (args (cs ! i)) (heap ap1 ! i)" if "i < length cs" for i
    using l1 cs1 that by (simp add: scopeResult_def linked_addr h2)
  have d: "\<forall>t\<in>set toks. HasPrefix t ''-''"
    using assms(4) by (auto dest: legalToken_dashed)
  have R1: "\<forall>t\<in>set toks. \<forall>i f. flagToken cs t i f \<longrightarrow> HasFlag (scopeResult ?ap i) (name f)"
  proof (intro ballI allI impI)
    fix t i f assume t: "t \<in> set toks" and ft: "flagToken cs t i f"
    have i: "i < length cs" using ft by (rule flagToken_level)
    from F t ft have "name f \<in> rflags (scopeResult ap1 i)" by blast
    then have "name f \<in> rflags (heap ap1 ! i)" by (simp only: sr1 [OF i])
    then show "HasFlag (scopeResult ?ap i) (name f)" by (simp add: HasFlag_def sr2 [OF i])
  qed
  have R2: "\<forall>t\<in>set toks. \<forall>i a x. argToken cs t i a \<and> snd (checkValue lib a (tokenValue t)) = Inr x
                \<longrightarrow> Arguments (scopeResult ?ap i) (ArgName a) = Some x"
  proof (intro ballI allI impI)
    fix t i a x assume t: "t \<in> set toks"
      and at: "argToken cs t i a \<and> snd (checkValue lib a (tokenValue t)) = Inr x"
    have i: "i < length cs" using at by (auto dest: argToken_level)
    from A t at have "Arguments (scopeResult ap1 i) (ArgName a) = Some x" by blast
    then have "Arguments (heap ap1 ! i) (ArgName a) = Some x" by (simp only: sr1 [OF i])
    then show "Arguments (scopeResult ?ap i) (ArgName a) = Some x"
      by (simp add: sr2 [OF i] fillArgs_Some)
  qed
  have unset: "Arguments (heap ap1 ! i) n = None"
    if "i < length cs" and "\<forall>t\<in>set toks. \<forall>a. argToken cs t i a \<longrightarrow> ArgName a \<noteq> n" for i n
  proof -
    from U that have "Arguments (scopeResult ap1 i) n = Arguments (scopeResult ap0 i) n" by blast
    then have "Arguments (heap ap1 ! i) n = Arguments (heap ap0 ! i) n"
      by (simp only: sr0 [OF that(1)] sr1 [OF that(1)])
    with em that(1) show ?thesis by simp
  qed
  have unmarked: "n \<notin> rflags (heap ap1 ! i)"
    if "i < length cs" and "\<forall>t\<in>set toks. \<forall>f. flagToken cs t i f \<longrightarrow> name f \<noteq> n" for i n
  proof -
    from V that have "(n \<in> rflags (scopeResult ap1 i)) = (n \<in> rflags (scopeResult ap0 i))" by blast
    then have "(n \<in> rflags (heap ap1 ! i)) = (n \<in> rflags (heap ap0 ! i))"
      by (simp only: sr0 [OF that(1)] sr1 [OF that(1)])
    with em that(1) show ?thesis by simp
  qed
  have R3: "\<forall>i<length cs. \<forall>ka\<in>set (args (cs ! i)).
                defaultValue (base (snd ka)) \<noteq> NilV
                \<and> (\<forall>t\<in>set toks. \<forall>a. argToken cs t i a \<longrightarrow> ArgName a \<noteq> ArgName (snd ka))
                \<longrightarrow> Arguments (scopeResult ?ap i) (ArgName (snd ka)) = Some (defaultValue (base (snd ka)))"
  proof (intro allI ballI impI)
    fix i ka assume i: "i < length cs" and ka: "ka \<in> set (args (cs ! i))"
      and h: "defaultValue (base (snd ka)) \<noteq> NilV
                \<and> (\<forall>t\<in>set toks. \<forall>a. argToken cs t i a \<longrightarrow> ArgName a \<noteq> ArgName (snd ka))"
    have v: "valid (cs ! i)" using walk_valid [OF assms(1,2)] i by simp
    have "Arguments (fillArgs (args (cs ! i)) (heap ap1 ! i)) (ArgName (snd ka)) = Some (defaultValue (base (snd ka)))"
      using valid_arg_names [OF v] ka h unset [OF i]
      by (intro fillArgs_default [where k = "fst ka"]) simp_all
    then show "Arguments (scopeResult ?ap i) (ArgName (snd ka)) = Some (defaultValue (base (snd ka)))"
      by (simp add: sr2 [OF i])
  qed
  have R4: "\<forall>i<length cs. \<forall>n.
                (\<forall>t\<in>set toks. \<forall>a. argToken cs t i a \<longrightarrow> ArgName a \<noteq> n)
                \<and> (\<forall>ka\<in>set (args (cs ! i)). ArgName (snd ka) = n \<longrightarrow> defaultValue (base (snd ka)) = NilV)
                \<longrightarrow> Arguments (scopeResult ?ap i) n = None"
  proof (intro allI impI)
    fix i n assume i: "i < length cs"
      and h: "(\<forall>t\<in>set toks. \<forall>a. argToken cs t i a \<longrightarrow> ArgName a \<noteq> n)
                \<and> (\<forall>ka\<in>set (args (cs ! i)). ArgName (snd ka) = n \<longrightarrow> defaultValue (base (snd ka)) = NilV)"
    have "Arguments (fillArgs (args (cs ! i)) (heap ap1 ! i)) n = None"
      using h unset [OF i] by (intro fillArgs_None) simp_all
    then show "Arguments (scopeResult ?ap i) n = None" by (simp add: sr2 [OF i])
  qed
  have R6: "\<forall>i<length cs. \<forall>n.
                (\<forall>t\<in>set toks. \<forall>f. flagToken cs t i f \<longrightarrow> name f \<noteq> n)
                \<longrightarrow> \<not> HasFlag (scopeResult ?ap i) n"
  proof (intro allI impI)
    fix i n assume i: "i < length cs"
      and h: "\<forall>t\<in>set toks. \<forall>f. flagToken cs t i f \<longrightarrow> name f \<noteq> n"
    from unmarked [OF i h] show "\<not> HasFlag (scopeResult ?ap i) n"
      by (simp add: HasFlag_def sr2 [OF i])
  qed
  have R5: "\<forall>i. Suc i < length cs \<longrightarrow> Subcommand (scopeResult ?ap i) = (ss ! i, Some (Suc i), True)"
  proof (intro allI impI)
    fix i assume i: "Suc i < length cs"
    then have i': "i < length cs" by simp
    have "subcommandName (heap ap1 ! i) = subcommandName (heap ap0 ! i)"
      using consumeAll_dashed_names [OF d, of lib ap0 i] c1 by simp
    moreover have "subcommandRes (heap ap1 ! i) = Some (Suc i)"
      using l1 hl i by (simp add: linked_def)
    ultimately show "Subcommand (scopeResult ?ap i) = (ss ! i, Some (Suc i), True)"
      using nm i by (simp add: Subcommand_def sr2 [OF i'])
  qed
  have cs2: "commandStack ?ap = cs" using cs1 by simp
  have main: "\<exists>ap. parse lib (newParser cli) (ss @ toks) = (Inr (Some 0), ap)
          \<and> linked ap \<and> commandStack ap = cs
          \<and> (\<forall>t\<in>set toks. \<forall>i f. flagToken cs t i f \<longrightarrow> HasFlag (scopeResult ap i) (name f))
          \<and> (\<forall>t\<in>set toks. \<forall>i a x. argToken cs t i a \<and> snd (checkValue lib a (tokenValue t)) = Inr x
                \<longrightarrow> Arguments (scopeResult ap i) (ArgName a) = Some x)
          \<and> (\<forall>i<length cs. \<forall>ka\<in>set (args (cs ! i)).
                defaultValue (base (snd ka)) \<noteq> NilV
                \<and> (\<forall>t\<in>set toks. \<forall>a. argToken cs t i a \<longrightarrow> ArgName a \<noteq> ArgName (snd ka))
                \<longrightarrow> Arguments (scopeResult ap i) (ArgName (snd ka)) = Some (defaultValue (base (snd ka))))
          \<and> (\<forall>i<length cs. \<forall>n.
                (\<forall>t\<in>set toks. \<forall>a. argToken cs t i a \<longrightarrow> ArgName a \<noteq> n)
                \<and> (\<forall>ka\<in>set (args (cs ! i)). ArgName (snd ka) = n \<longrightarrow> defaultValue (base (snd ka)) = NilV)
                \<longrightarrow> Arguments (scopeResult ap i) n = None)
          \<and> (\<forall>i<length cs. \<forall>n.
                (\<forall>t\<in>set toks. \<forall>f. flagToken cs t i f \<longrightarrow> name f \<noteq> n)
                \<longrightarrow> \<not> HasFlag (scopeResult ap i) n)
          \<and> (\<forall>i. Suc i < length cs \<longrightarrow> Subcommand (scopeResult ap i) = (ss ! i, Some (Suc i), True))"
    by (intro exI [of _ ?ap] conjI) (fact P l2 cs2 R1 R2 R3 R4 R6 R5)+
  have exit: "\<exists>ap. parse lib (newParser cli) (ss @ toks @ u # rest) = (Inl ProcessExit, ap)
                \<and> HasFlag (scopeResult ap k) (name g)
                \<and> ParseArgs lib cli (p # ss @ toks @ u # rest) = Exits ap"
    if ft: "flagToken cs u k g" and e: "endsProcess g" and ns: "\<forall>t\<in>set toks. \<not> sameTarget cs t u"
  proof -
    have k: "k < length cs" using ft by (rule flagToken_level)
    have "\<forall>t\<in>set toks. \<forall>f. flagToken cs t k f \<longrightarrow> name f \<noteq> name g"
    proof (intro ballI allI impI)
      fix t f assume t: "t \<in> set toks" and f: "flagToken cs t k f"
      show "name f \<noteq> name g"
      proof
        assume "name f = name g"
        with f ft have "sameTarget cs t u" unfolding sameTarget_def by blast
        with ns t show False by simp
      qed
    qed
    from unmarked [OF k this] have n: "name g \<notin> rflags (scopeResult ap1 k)"
      by (simp only: sr1 [OF k]) simp
    from consume_flag_ok [OF l1 ft [folded cs1] n, of lib] e obtain ap2 where
      c2: "consume lib ap1 u = (Some ProcessExit, ap2)"
      and h2: "\<forall>j<length cs. rflags (scopeResult ap2 j)
                  = (if j = k then insert (name g) (rflags (scopeResult ap1 j)) else rflags (scopeResult ap1 j))
                \<and> Arguments (scopeResult ap2 j) = Arguments (scopeResult ap1 j)"
      by (auto simp: cs1)
    have "consumeAll lib (startParse (newParser cli)) ((ss @ toks) @ u # rest) = (Some ProcessExit, ap2)"
      by (simp only: consumeAll_append [of lib _ "ss @ toks"] run) (simp add: c2)
    then have E1: "parse lib (newParser cli) (ss @ toks @ u # rest) = (Inl ProcessExit, ap2)"
      by (simp add: parse_def)
    have E2: "HasFlag (scopeResult ap2 k) (name g)" using h2 k by (simp add: HasFlag_def)
    have E3: "ParseArgs lib cli (p # ss @ toks @ u # rest) = Exits ap2"
      by (simp add: ParseArgs_def E1)
    show ?thesis
      by (intro exI [of _ ap2] conjI) (fact E1 E2 E3)+
  qed
  show ?thesis
    using main exit by blast
qed


text \<open>
  The examples of the specification: \<^verbatim>\<open>-i=2\<close> gives the integer 2 and leaves the
  string argument at its default, no token at all gives the integer its default 0,
  and inside the subcommand \<^verbatim>\<open>build\<close> an argument goes to the subcommand and a flag
  of the root to the root, while the flag \<open>verbose\<close> that no token names is absent.
  On a command line with the help flag, \<^verbatim>\<open>-h\<close> ends the process.
\<close>

theorem legal_tokens_parse_witness:
  "valid validatorsCLI \<and> walk validatorsCLI [] = Some [validatorsCLI]
   \<and> legalToken exampleLib [validatorsCLI] ''-i=2'' \<and> noRepeat [validatorsCLI] [''-i=2'']
   \<and> (\<exists>ap. parse exampleLib (newParser validatorsCLI) [''-i=2''] = (Inr (Some 0), ap)
          \<and> Arguments (scopeResult ap 0) ''int'' = Some (IntV 2)
          \<and> Arguments (scopeResult ap 0) ''str'' = Some (StringV ''val''))
   \<and> (\<exists>ap. parse exampleLib (newParser validatorsCLI) [] = (Inr (Some 0), ap)
          \<and> Arguments (scopeResult ap 0) ''int'' = Some (IntV 0))
   \<and> valid shadowCLI \<and> walk shadowCLI [''build''] = Some [shadowCLI, buildCmd] \<and> bare ''build''
   \<and> legalToken exampleLib [shadowCLI, buildCmd] ''-o=other_path''
   \<and> legalToken exampleLib [shadowCLI, buildCmd] ''-q''
   \<and> noRepeat [shadowCLI, buildCmd] [''-o=other_path'', ''-q'']
   \<and> \<not> endsProcess quietFlag
   \<and> (\<exists>ap. parse exampleLib (newParser shadowCLI) [''build'', ''-o=other_path'', ''-q''] = (Inr (Some 0), ap)
          \<and> HasFlag (scopeResult ap 0) ''quiet''
          \<and> \<not> HasFlag (scopeResult ap 0) ''verbose''
          \<and> Arguments (scopeResult ap 1) ''output'' = Some (StringV ''other_path'')
          \<and> Arguments (scopeResult ap 0) ''output'' = Some (StringV ''root_path'')
          \<and> Subcommand (scopeResult ap 0) = (''build'', Some 1, True))
   \<and> valid (NewCLI ''olive'' [] True)
   \<and> flagToken [NewCLI ''olive'' [] True] ''-h'' 0 (helpFlag ''olive'')
   \<and> endsProcess (helpFlag ''olive'')
   \<and> (\<exists>ap. parse exampleLib (newParser (NewCLI ''olive'' [] True)) [''-h''] = (Inl ProcessExit, ap)
          \<and> HasFlag (scopeResult ap 0) ''help''
          \<and> ParseArgs exampleLib (NewCLI ''olive'' [] True) [''olive'', ''-h''] = Exits ap)"
proof -
  let ?v = "[validatorsCLI]" and ?s = "[shadowCLI, buildCmd]" and ?h = "NewCLI ''olive'' [] True"
  have v1: "valid validatorsCLI"
    by (simp add: validatorsCLI_def intArg_def strArg_def selArg_def ArgName_def ShortName_def)
  have v2: "valid shadowCLI"
    by (simp add: shadowCLI_def buildCmd_def verboseRoot_def verboseBuild_def quietFlag_def outRoot_def
          outBuild_def ArgName_def ShortName_def)
  have v3: "valid ?h"
    by (simp add: NewCLI_def newCommand_def helpFlag_def)
  have w1: "walk validatorsCLI [] = Some ?v" by simp
  have w2: "walk shadowCLI [''build''] = Some ?s" by (simp add: shadowCLI_def)
  have w3: "walk ?h [] = Some [?h]" by simp
  have b: "bare ''build''" by (simp add: bare_def HasPrefix_def)
  have b0: "\<forall>s\<in>set []. bare s" and b2: "\<forall>s\<in>set [''build'']. bare s" using b by simp_all
  have a1: "argToken ?v ''-i=2'' 0 intArg"
    by (simp add: argToken_def tokenValue_def tokenName_def innermost_def HasPrefix_def validatorsCLI_def)
  have x1: "snd (checkValue exampleLib intArg (tokenValue ''-i=2'')) = Inr (IntV 2)"
    by (simp add: tokenValue_def intArg_def exampleLib_def digit_def validate_def mustBeEven_def
          signed_modulo_int_def)
  have a2: "argToken ?s ''-o=other_path'' 1 outBuild"
    by (simp add: argToken_def tokenValue_def tokenName_def innermost_def HasPrefix_def shadowCLI_def
          buildCmd_def)
  have x2: "snd (checkValue exampleLib outBuild (tokenValue ''-o=other_path'')) = Inr (StringV ''other_path'')"
    by (simp add: tokenValue_def outBuild_def validate_def)
  have f2: "flagToken ?s ''-q'' 0 quietFlag"
    by (simp add: flagToken_def tokenValue_def tokenName_def innermost_def HasPrefix_def shadowCLI_def
          buildCmd_def)
  have f3: "flagToken [?h] ''-h'' 0 (helpFlag ''olive'')"
    by (simp add: flagToken_def tokenValue_def tokenName_def innermost_def HasPrefix_def
          NewCLI_def newCommand_def)
  have l1: "legalToken exampleLib ?v ''-i=2''" using a1 x1 by (auto simp: legalToken_def)
  have l2: "legalToken exampleLib ?s ''-o=other_path''" "legalToken exampleLib ?s ''-q''"
    using a2 x2 f2 by (auto simp: legalToken_def)
  have lt0: "\<forall>t\<in>set []. legalToken exampleLib cs t" for cs by simp
  have lt1: "\<forall>t\<in>set [''-i=2'']. legalToken exampleLib ?v t" using l1 by simp
  have lt2: "\<forall>t\<in>set [''-o=other_path'', ''-q'']. legalToken exampleLib ?s t" using l2 by simp
  have n1: "noRepeat ?v [''-i=2'']" "noRepeat ?v []" by simp_all
  have n2: "noRepeat ?s [''-o=other_path'', ''-q'']"
    using flag_arg_differ [OF f2 a2] by simp
  have n3: "noRepeat [?h] []" by simp
  have q1: "\<not> (subcommands (last ?v) \<noteq> [] \<and> RequiresSubcommand (last ?v))"
    by (simp add: validatorsCLI_def)
  have q2: "\<not> (subcommands (last ?s) \<noteq> [] \<and> RequiresSubcommand (last ?s))"
    by (simp add: buildCmd_def)
  have q3: "\<not> (subcommands (last [?h]) \<noteq> [] \<and> RequiresSubcommand (last [?h]))"
    by (simp add: NewCLI_def newCommand_def)
  have eq: "\<not> endsProcess quietFlag" by (simp add: endsProcess_def quietFlag_def)
  have eh: "endsProcess (helpFlag ''olive'')" "name (helpFlag ''olive'') = ''help''"
    by (simp_all add: endsProcess_def helpFlag_def)
  have e0: "\<forall>t\<in>set []. \<forall>i f. flagToken cs t i f \<longrightarrow> \<not> endsProcess f" for cs by simp
  have e1: "\<forall>t\<in>set [''-i=2'']. \<forall>i f. flagToken ?v t i f \<longrightarrow> \<not> endsProcess f"
    using flag_not_arg [OF _ a1] by auto
  have e2: "\<forall>t\<in>set [''-o=other_path'', ''-q'']. \<forall>i f. flagToken ?s t i f \<longrightarrow> \<not> endsProcess f"
  proof (intro ballI allI impI)
    fix t i f assume t: "t \<in> set [''-o=other_path'', ''-q'']" and ft: "flagToken ?s t i f"
    from t consider "t = ''-o=other_path''" | "t = ''-q''" by auto
    then show "\<not> endsProcess f"
    proof cases
      case 1
      with ft flag_not_arg [OF _ a2, of i f] show ?thesis by simp
    next
      case 2
      with ft flagToken_unique [OF f2, of i f] eq show ?thesis by simp
    qed
  qed
  have names: "ArgName intArg = ''int''" "ArgName outBuild = ''output''" "name quietFlag = ''quiet''"
    by (simp_all add: ArgName_def intArg_def outBuild_def quietFlag_def)
  from legal_tokens_parse [OF v1 w1 b0 lt1 n1(1) q1 e1, THEN conjunct1] obtain ap where
    A: "parse exampleLib (newParser validatorsCLI) ([] @ [''-i=2'']) = (Inr (Some 0), ap)"
    and A2: "\<forall>t\<in>set [''-i=2'']. \<forall>i a x. argToken ?v t i a \<and> snd (checkValue exampleLib a (tokenValue t)) = Inr x
                \<longrightarrow> Arguments (scopeResult ap i) (ArgName a) = Some x"
    and A3: "\<forall>i<length ?v. \<forall>ka\<in>set (args (?v ! i)).
                defaultValue (base (snd ka)) \<noteq> NilV
                \<and> (\<forall>t\<in>set [''-i=2'']. \<forall>a. argToken ?v t i a \<longrightarrow> ArgName a \<noteq> ArgName (snd ka))
                \<longrightarrow> Arguments (scopeResult ap i) (ArgName (snd ka)) = Some (defaultValue (base (snd ka)))"
    by blast
  have A2': "Arguments (scopeResult ap 0) ''int'' = Some (IntV 2)"
    using A2 [rule_format, of "''-i=2''" 0 intArg "IntV 2"] a1 x1 names by simp
  have "\<forall>a. argToken ?v ''-i=2'' 0 a \<longrightarrow> ArgName a \<noteq> ArgName strArg"
  proof (intro allI impI)
    fix a assume "argToken ?v ''-i=2'' 0 a"
    then have "a = intArg" using argToken_unique [OF a1] by blast
    then show "ArgName a \<noteq> ArgName strArg" by (simp add: ArgName_def intArg_def strArg_def)
  qed
  then have A3': "Arguments (scopeResult ap 0) ''str'' = Some (StringV ''val'')"
    using A3 [rule_format, of 0 "(''str'', strArg)"]
    by (simp add: validatorsCLI_def) (simp add: strArg_def ArgName_def)
  from legal_tokens_parse [OF v1 w1 b0 lt0 n1(2) q1 e0, THEN conjunct1] obtain ap0 where
    B: "parse exampleLib (newParser validatorsCLI) ([] @ []) = (Inr (Some 0), ap0)"
    and B3: "\<forall>i<length ?v. \<forall>ka\<in>set (args (?v ! i)).
                defaultValue (base (snd ka)) \<noteq> NilV
                \<and> (\<forall>t\<in>set []. \<forall>a. argToken ?v t i a \<longrightarrow> ArgName a \<noteq> ArgName (snd ka))
                \<longrightarrow> Arguments (scopeResult ap0 i) (ArgName (snd ka)) = Some (defaultValue (base (snd ka)))"
    by blast
  have B3': "Arguments (scopeResult ap0 0) ''int'' = Some (IntV 0)"
    using B3 [rule_format, of 0 "(''int'', intArg)"]
    by (simp add: validatorsCLI_def) (simp add: intArg_def ArgName_def)
  from legal_tokens_parse [OF v2 w2 b2 lt2 n2 q2 e2, THEN conjunct1] obtain ap2 where
    C: "parse exampleLib (newParser shadowCLI) ([''build''] @ [''-o=other_path'', ''-q'']) = (Inr (Some 0), ap2)"
    and C1: "\<forall>t\<in>set [''-o=other_path'', ''-q'']. \<forall>i f. flagToken ?s t i f \<longrightarrow> HasFlag (scopeResult ap2 i) (name f)"
    and C2: "\<forall>t\<in>set [''-o=other_path'', ''-q'']. \<forall>i a x. argToken ?s t i a \<and> snd (checkValue exampleLib a (tokenValue t)) = Inr x
                \<longrightarrow> Arguments (scopeResult ap2 i) (ArgName a) = Some x"
    and C3: "\<forall>i<length ?s. \<forall>ka\<in>set (args (?s ! i)).
                defaultValue (base (snd ka)) \<noteq> NilV
                \<and> (\<forall>t\<in>set [''-o=other_path'', ''-q'']. \<forall>a. argToken ?s t i a \<longrightarrow> ArgName a \<noteq> ArgName (snd ka))
                \<longrightarrow> Arguments (scopeResult ap2 i) (ArgName (snd ka)) = Some (defaultValue (base (snd ka)))"
    and C4: "\<forall>i<length ?s. \<forall>n.
                (\<forall>t\<in>set [''-o=other_path'', ''-q'']. \<forall>f. flagToken ?s t i f \<longrightarrow> name f \<noteq> n)
                \<longrightarrow> \<not> HasFlag (scopeResult ap2 i) n"
    and C5: "\<forall>i. Suc i < length ?s \<longrightarrow> Subcommand (scopeResult ap2 i) = ([''build''] ! i, Some (Suc i), True)"
    by blast
  have C1': "HasFlag (scopeResult ap2 0) ''quiet''"
    using C1 [rule_format, of "''-q''" 0 quietFlag] f2 names by simp
  have C2': "Arguments (scopeResult ap2 1) ''output'' = Some (StringV ''other_path'')"
    using C2 [rule_format, of "''-o=other_path''" 1 outBuild "StringV ''other_path''"] a2 x2 names by simp
  have "\<forall>t\<in>set [''-o=other_path'', ''-q'']. \<forall>a. argToken ?s t 0 a \<longrightarrow> ArgName a \<noteq> ArgName outRoot"
  proof (intro ballI allI impI)
    fix t a assume t: "t \<in> set [''-o=other_path'', ''-q'']" and at: "argToken ?s t 0 a"
    from t consider "t = ''-o=other_path''" | "t = ''-q''" by auto
    then show "ArgName a \<noteq> ArgName outRoot"
    proof cases
      case 1
      with at argToken_unique [OF a2, of 0 a] show ?thesis by simp
    next
      case 2
      with at flag_not_arg [OF f2, of 0 a] show ?thesis by simp
    qed
  qed
  then have C3': "Arguments (scopeResult ap2 0) ''output'' = Some (StringV ''root_path'')"
    using C3 [rule_format, of 0 "(''output'', outRoot)"]
    by (simp add: shadowCLI_def) (simp add: outRoot_def ArgName_def)
  have "\<forall>t\<in>set [''-o=other_path'', ''-q'']. \<forall>f. flagToken ?s t 0 f \<longrightarrow> name f \<noteq> ''verbose''"
  proof (intro ballI allI impI)
    fix t f assume t: "t \<in> set [''-o=other_path'', ''-q'']" and ft: "flagToken ?s t 0 f"
    from t consider "t = ''-o=other_path''" | "t = ''-q''" by auto
    then show "name f \<noteq> ''verbose''"
    proof cases
      case 1
      with ft flag_not_arg [OF _ a2, of 0 f] show ?thesis by simp
    next
      case 2
      with ft flagToken_unique [OF f2, of 0 f] names show ?thesis by simp
    qed
  qed
  moreover have "0 < length ?s" by simp
  ultimately have C4': "\<not> HasFlag (scopeResult ap2 0) ''verbose''"
    using C4 by blast
  have C5': "Subcommand (scopeResult ap2 0) = (''build'', Some 1, True)"
    using C5 by simp
  from legal_tokens_parse [OF v3 w3 b0 lt0 n3 q3 e0, THEN conjunct2, rule_format,
      where u = "''-h''" and k = 0 and g = "helpFlag ''olive''"
        and rest = "[]" and p = "''olive''"] f3 eh(1)
  obtain ap3 where
    D: "parse exampleLib (newParser ?h) ([] @ [] @ [''-h'']) = (Inl ProcessExit, ap3)"
    and D2: "HasFlag (scopeResult ap3 0) (name (helpFlag ''olive''))"
    and D3: "ParseArgs exampleLib ?h (''olive'' # [] @ [] @ [''-h'']) = Exits ap3"
    by auto
  have D': "\<exists>ap. parse exampleLib (newParser ?h) [''-h''] = (Inl ProcessExit, ap)
          \<and> HasFlag (scopeResult ap 0) ''help''
          \<and> ParseArgs exampleLib ?h [''olive'', ''-h''] = Exits ap"
    using D D2 D3 eh(2) by (intro exI [of _ ap3]) simp
  show ?thesis
    using v1 w1 l1 n1 A A2' A3' B B3' v2 w2 b l2 n2 eq C C1' C2' C3' C4' C5' v3 f3 eh(1) D'
    by (simp del: noRepeat.simps walk.simps)
qed

text \<open>
  C1 as stated fails on the command line that \<^verbatim>\<open>NewCLI\<close> builds with help enabled:
  the tree is valid, \<^verbatim>\<open>--help\<close> names a declared flag, once, and no subcommand is
  missing, yet the parse returns no result: the callback of the flag ends the
  process.
\<close>

theorem help_flag_ends_the_process_counterexample:
  "valid (NewCLI ''olive'' [] True)
   \<and> walk (NewCLI ''olive'' [] True) [] = Some [NewCLI ''olive'' [] True]
   \<and> map_of (flags (NewCLI ''olive'' [] True)) ''help'' = Some (helpFlag ''olive'')
   \<and> flagToken [NewCLI ''olive'' [] True] ''--help'' 0 (helpFlag ''olive'')
   \<and> legalToken exampleLib [NewCLI ''olive'' [] True] ''--help''
   \<and> noRepeat [NewCLI ''olive'' [] True] [''--help'']
   \<and> subcommands (NewCLI ''olive'' [] True) = []
   \<and> fst (parse exampleLib (newParser (NewCLI ''olive'' [] True)) [''--help'']) = Inl ProcessExit
   \<and> events (snd (parse exampleLib (newParser (NewCLI ''olive'' [] True)) [''--help'']))
       = [ActionRun (HelpAndExit ''olive'')]
   \<and> ParseArgs exampleLib (NewCLI ''olive'' [] True) [''olive'', ''--help'']
       = Exits (snd (parse exampleLib (newParser (NewCLI ''olive'' [] True)) [''--help'']))"
proof -
  let ?h = "NewCLI ''olive'' [] True"
  have f: "flagToken [?h] ''--help'' 0 (helpFlag ''olive'')"
    by (simp add: flagToken_def tokenValue_def tokenName_def innermost_def HasPrefix_def
          NewCLI_def newCommand_def)
  then have l: "legalToken exampleLib [?h] ''--help''" by (auto simp: legalToken_def)
  have p: "fst (parse exampleLib (newParser ?h) [''--help'']) = Inl ProcessExit"
    "events (snd (parse exampleLib (newParser ?h) [''--help''])) = [ActionRun (HelpAndExit ''olive'')]"
    by (simp_all add: parse_def run_defs NewCLI_def newCommand_def helpFlag_def)
  have a: "ParseArgs exampleLib ?h [''olive'', ''--help'']
       = Exits (snd (parse exampleLib (newParser ?h) [''--help'']))"
    using p(1) by (simp add: ParseArgs_def Let_def)
  have v: "valid ?h" "map_of (flags ?h) ''help'' = Some (helpFlag ''olive'')" "subcommands ?h = []"
    by (simp_all add: NewCLI_def newCommand_def helpFlag_def)
  show ?thesis
    using f l p a v by simp
qed

end
